theory Spec2Isabelle
  imports Main "HOL-Library.Sublist" "HOL-Library.AList"
begin

section \<open>Strings of the host language\<close>

text \<open>
  A template is a \<^typ>\<open>string\<close>; a character stands for one code unit below 256.
  The functions of this section are the string primitives the builder calls
  (\<^verbatim>\<open>trim\<close>, \<^verbatim>\<open>split\<close>, \<^verbatim>\<open>repeat\<close>, the character classes of its regular
  expression), written out with the behaviour the language standard gives them:
  \<^verbatim>\<open>trim\<close> removes white space and line terminators (tab, line feed, vertical tab, form
  feed, carriage return, space, no-break space), \<^verbatim>\<open>\w\<close> is a letter, a digit or the
  underscore, \<^verbatim>\<open>\d\<close> a digit, and the dot of a pattern is any character but a line
  terminator.
\<close>

definition NL :: char where
  "NL = CHR 0x0A"

definition is_space :: "char \<Rightarrow> bool" where
  "is_space c = (c \<in> set [CHR 0x09, CHR 0x0A, CHR 0x0B, CHR 0x0C, CHR 0x0D, CHR 0x20, CHR 0xA0])"

definition is_digit :: "char \<Rightarrow> bool" where
  "is_digit c = (c \<in> set ''0123456789'')"

definition is_word :: "char \<Rightarrow> bool" where
  "is_word c = (c \<in> set ''abcdefghijklmnopqrstuvwxyzABCDEFGHIJKLMNOPQRSTUVWXYZ0123456789_'')"

definition is_line_terminator :: "char \<Rightarrow> bool" where
  "is_line_terminator c = (c \<in> set [CHR 0x0A, CHR 0x0D])"

definition trim :: "string \<Rightarrow> string" where
  "trim s = rev (dropWhile is_space (rev (dropWhile is_space s)))"

text \<open>
  \<^verbatim>\<open>s.split(sep)\<close>: the pieces of \<open>s\<close> between the occurrences of \<open>sep\<close>, found
  left to right without overlap; an empty separator cuts \<open>s\<close> into its characters.
  \<open>split_from sep cur rest\<close> scans \<open>rest\<close> with \<open>cur\<close> the piece read so far.
\<close>

fun split_from :: "string \<Rightarrow> string \<Rightarrow> string \<Rightarrow> string list" where
  "split_from sep cur [] = [cur]"
| "split_from sep cur (c # cs) =
     (if prefix sep (c # cs) then cur # split_from sep [] (drop (length sep - 1) cs)
      else split_from sep (cur @ [c]) cs)"

definition split_str :: "string \<Rightarrow> string \<Rightarrow> string list" where
  "split_str s sep = (if sep = [] then map (\<lambda>c. [c]) s else split_from sep [] s)"

section \<open>Lines and indentation\<close>

text \<open>\<^verbatim>\<open>_level\<close>: the number of \<^verbatim>\<open>>\<close> characters a line starts with.\<close>

definition level :: "string \<Rightarrow> nat" where
  "level line = length (takeWhile (\<lambda>c. c = CHR ''>'') line)"

text \<open>\<^verbatim>\<open>_extractLinesFrom\<close>: trim the template, cut it at newlines, trim every line.\<close>

definition extractLinesFrom :: "string \<Rightarrow> string list" where
  "extractLinesFrom template = map trim (split_str (trim template) [NL])"

text \<open>
  \<^verbatim>\<open>indentTemplate\<close>: every extracted line gets \<open>indentation\<close> markers in front and a
  newline behind; the concatenation is trimmed.
\<close>

definition indentTemplate :: "string \<Rightarrow> nat \<Rightarrow> string" where
  "indentTemplate template indentation =
     trim (foldl (\<lambda>newTemplate line. newTemplate @ replicate indentation (CHR ''>'') @ line @ [NL])
             [] (extractLinesFrom template))"


section \<open>Errors\<close>

text \<open>
  What a call can raise: the \<^verbatim>\<open>Error\<close> the builder throws itself, with its message; the
  \<^verbatim>\<open>TypeError\<close> of a read through \<^verbatim>\<open>undefined\<close>; and the two exceptions of the host,
  \<^verbatim>\<open>InvalidCharacterError\<close> and \<^verbatim>\<open>SyntaxError\<close>. A call that raises returns \<open>Inl\<close>.
\<close>

datatype error = Error string | TypeError | InvalidCharacterError | SyntaxError

text \<open>A loop whose body can raise: the first exception ends it.\<close>

fun for_each :: "('a \<Rightarrow> 'b \<Rightarrow> error + 'a) \<Rightarrow> 'a \<Rightarrow> 'b list \<Rightarrow> error + 'a" where
  "for_each f a [] = Inr a"
| "for_each f a (x # xs) = (case f a x of Inl e \<Rightarrow> Inl e | Inr a' \<Rightarrow> for_each f a' xs)"

section \<open>Platform nodes\<close>

text \<open>
  The builder needs from its host a handful of node operations: create an element by
  tag, add a class, set an attribute, set the id, append or prepend a child, create a
  text node, attach a listener. They are modelled as the document object model defines
  them for an element of a hypertext document. An element has a local name, a list of
  attributes, a list of listeners and a list of child nodes; its id and its classes are
  the attributes \<^verbatim>\<open>id\<close> and \<^verbatim>\<open>class\<close>.

  \<^item> \<^verbatim>\<open>createElement\<close> and \<^verbatim>\<open>setAttribute\<close> raise \<^verbatim>\<open>InvalidCharacterError\<close> on a name that
    is not a name of the markup language (the \<^verbatim>\<open>Name\<close> production: a letter, \<^verbatim>\<open>_\<close> or
    \<^verbatim>\<open>:\<close> first, then also digits, \<^verbatim>\<open>-\<close> and \<^verbatim>\<open>.\<close>), and store the name in lower case.
  \<^item> \<^verbatim>\<open>classList.add\<close> raises on an empty token and on a token with white space; it
    rewrites the \<^verbatim>\<open>class\<close> attribute as the tokens joined by one space.
  \<^item> \<^verbatim>\<open>element.id = v\<close> sets the \<^verbatim>\<open>id\<close> attribute.
  \<^item> \<^verbatim>\<open>addEventListener\<close> appends a listener unless one with the same type, callback
    and capture flag is there already.

  A callback is represented by a reference number, and the options value of a listener
  by the capture flag the host reads from it (\<open>None\<close> when there are no options).

  Every element the builder creates is referenced from one place only (the pending list
  of its block, or the child list of its parent), so an element is a value here and a
  mutation of an entry of the pending list is an update of that entry.
\<close>

datatype element =
  Element (localName: string) (attributes: "(string \<times> string) list")
    (listeners: "(string \<times> nat \<times> bool) list") (childNodes: "node list")
and node = TextNode string | ElementNode element

definition is_letter :: "char \<Rightarrow> bool" where
  "is_letter c = (c \<in> set ''abcdefghijklmnopqrstuvwxyzABCDEFGHIJKLMNOPQRSTUVWXYZ'')"

definition is_name_start :: "char \<Rightarrow> bool" where
  "is_name_start c =
     (is_letter c \<or> c = CHR ''_'' \<or> c = CHR '':''
      \<or> (192 \<le> (of_char c :: nat) \<and> (of_char c :: nat) \<le> 214)
      \<or> (216 \<le> (of_char c :: nat) \<and> (of_char c :: nat) \<le> 246)
      \<or> 248 \<le> (of_char c :: nat))"

definition is_name_char :: "char \<Rightarrow> bool" where
  "is_name_char c =
     (is_name_start c \<or> is_digit c \<or> c = CHR ''-'' \<or> c = CHR ''.'' \<or> c = CHR 0xB7)"

definition valid_name :: "string \<Rightarrow> bool" where
  "valid_name s = (case s of [] \<Rightarrow> False | c # cs \<Rightarrow> is_name_start c \<and> list_all is_name_char cs)"

definition to_lower :: "char \<Rightarrow> char" where
  "to_lower c =
     (case map_of (zip ''ABCDEFGHIJKLMNOPQRSTUVWXYZ'' ''abcdefghijklmnopqrstuvwxyz'') c of
        None \<Rightarrow> c
      | Some l \<Rightarrow> l)"

definition createElement :: "string \<Rightarrow> error + element" where
  "createElement tag =
     (if valid_name tag then Inr (Element (map to_lower tag) [] [] [])
      else Inl InvalidCharacterError)"

text \<open>Setting the value of an attribute by its stored name.\<close>

fun set_attribute_value :: "element \<Rightarrow> string \<Rightarrow> string \<Rightarrow> element" where
  "set_attribute_value (Element t a l ch) k v = Element t (AList.update k v a) l ch"

definition setAttribute :: "element \<Rightarrow> string \<Rightarrow> string \<Rightarrow> error + element" where
  "setAttribute element k v =
     (if valid_name k then Inr (set_attribute_value element (map to_lower k) v)
      else Inl InvalidCharacterError)"

definition getAttribute :: "element \<Rightarrow> string \<Rightarrow> string option" where
  "getAttribute element k = map_of (attributes element) k"

definition elem_id :: "element \<Rightarrow> string" where
  "elem_id element = (case getAttribute element ''id'' of None \<Rightarrow> [] | Some v \<Rightarrow> v)"

definition set_id :: "element \<Rightarrow> string \<Rightarrow> element" where
  "set_id element v = set_attribute_value element ''id'' v"

text \<open>
  The class list of an element: the tokens of its \<^verbatim>\<open>class\<close> attribute, cut at white
  space, each once, in the order of their first occurrence.
\<close>

definition is_ascii_whitespace :: "char \<Rightarrow> bool" where
  "is_ascii_whitespace c = (c \<in> set [CHR 0x09, CHR 0x0A, CHR 0x0C, CHR 0x0D, CHR 0x20])"

fun tokens_from :: "string \<Rightarrow> string \<Rightarrow> string list" where
  "tokens_from cur [] = (if cur = [] then [] else [cur])"
| "tokens_from cur (c # cs) =
     (if is_ascii_whitespace c then (if cur = [] then [] else [cur]) @ tokens_from [] cs
      else tokens_from (cur @ [c]) cs)"

definition classList :: "element \<Rightarrow> string list" where
  "classList element =
     rev (remdups (rev (tokens_from []
       (case getAttribute element ''class'' of None \<Rightarrow> [] | Some v \<Rightarrow> v))))"

fun join_tokens :: "string list \<Rightarrow> string" where
  "join_tokens [] = []"
| "join_tokens [t] = t"
| "join_tokens (t # u # us) = t @ '' '' @ join_tokens (u # us)"

definition classList_add :: "element \<Rightarrow> string \<Rightarrow> error + element" where
  "classList_add element c =
     (if c = [] then Inl SyntaxError
      else if list_ex is_ascii_whitespace c then Inl InvalidCharacterError
      else Inr (set_attribute_value element ''class''
                  (join_tokens (if c \<in> set (classList element) then classList element
                                else classList element @ [c]))))"

fun addEventListener :: "element \<Rightarrow> string \<Rightarrow> nat \<Rightarrow> bool option \<Rightarrow> element" where
  "addEventListener (Element t a l ch) ty cb opts =
     (let capture = (case opts of None \<Rightarrow> False | Some b \<Rightarrow> b)
      in if (ty, cb, capture) \<in> set l then Element t a l ch
         else Element t a (l @ [(ty, cb, capture)]) ch)"

fun appendChild :: "element \<Rightarrow> node \<Rightarrow> element" where
  "appendChild (Element t a l ch) n = Element t a l (ch @ [n])"

fun prepend :: "element \<Rightarrow> node \<Rightarrow> element" where
  "prepend (Element t a l ch) n = Element t a l (n # ch)"

section \<open>The builder\<close>

record Listener =
  name :: string
  type :: string
  callback :: nat
  options :: "bool option"

text \<open>
  The fields of the class. \<open>decodeHTMLEntities\<close> is the host's entity decoder, which the
  source reaches through a scratch text area; it is a parameter of the model.
\<close>

record HTMLBuilder =
  parent :: element
  SYMBOL_BETWEEN_ATTRIBUTES :: string
  EVENTS :: "Listener list"
  decodeHTMLEntities :: "string \<Rightarrow> string"

text \<open>\<^verbatim>\<open>_searchForEvent\<close>: the first registered event with exactly this name.\<close>

definition searchForEvent :: "HTMLBuilder \<Rightarrow> string \<Rightarrow> Listener option" where
  "searchForEvent this n = find (\<lambda>event. n = name event) (EVENTS this)"

subsection \<open>The line pattern\<close>

text \<open>
  The pattern of the source is
  \<^verbatim>\<open>/(\w+)((?:\.[\w-]*)*)*(#[\w-]*)?(?:\((.*)\))?(?:\[(.*)\])?(?:\@([\w;]*))*/\<close>.
  It is not anchored and everything after the tag is optional, so a match starts at the
  first word character of the line and every greedy group keeps its longest match.
  \<open>None\<close> is a group that did not take part (\<^verbatim>\<open>undefined\<close>).
\<close>

record groups =
  g1 :: "string option"
  g2 :: "string option"
  g3 :: "string option"
  g4 :: "string option"
  g5 :: "string option"
  g6 :: "string option"

definition no_groups :: groups where
  "no_groups = \<lparr>g1 = None, g2 = None, g3 = None, g4 = None, g5 = None, g6 = None\<rparr>"

definition is_word_dash :: "char \<Rightarrow> bool" where
  "is_word_dash c = (is_word c \<or> c = CHR ''-'')"

definition is_word_semi :: "char \<Rightarrow> bool" where
  "is_word_semi c = (is_word c \<or> c = CHR '';'')"

text \<open>\<^verbatim>\<open>(?:\.[\w-]*)*\<close>: the longest run of dot-led tokens at the start of the text.\<close>

function class_run :: "string \<Rightarrow> string" where
  "class_run [] = []"
| "class_run (c # cs) =
     (if c = CHR ''.'' then c # takeWhile is_word_dash cs @ class_run (dropWhile is_word_dash cs)
      else [])"
  by pat_completeness auto
termination
  by (relation "measure length") (auto simp: less_Suc_eq_le length_dropWhile_le)

text \<open>
  \<^verbatim>\<open>(?:\((.*)\))?\<close> and \<^verbatim>\<open>(?:\[(.*)\])?\<close>: after the opening character the dot runs to the
  end of the line (it stops at a line terminator) and gives back up to the last closing
  character; without one the group does not take part. The result is the capture and
  the text left after the group.
\<close>

definition bracketed :: "char \<Rightarrow> char \<Rightarrow> string \<Rightarrow> string option \<times> string" where
  "bracketed opening closing s =
     (case s of
        [] \<Rightarrow> (None, s)
      | c # cs \<Rightarrow>
          (let reach = takeWhile (\<lambda>x. \<not> is_line_terminator x) cs in
           if c = opening \<and> closing \<in> set reach then
             (let inner = rev (tl (dropWhile (\<lambda>x. x \<noteq> closing) (rev reach)))
              in (Some inner, drop (Suc (length inner)) cs))
           else (None, s)))"

text \<open>\<^verbatim>\<open>(?:\@([\w;]*))*\<close>: the capture is the one of the last repetition.\<close>

function event_run :: "string \<Rightarrow> string option \<Rightarrow> string option" where
  "event_run [] cap = cap"
| "event_run (c # cs) cap =
     (if c = CHR ''@'' then event_run (dropWhile is_word_semi cs) (Some (takeWhile is_word_semi cs))
      else cap)"
  by pat_completeness auto
termination
  by (relation "measure (\<lambda>(s, cap). length s)") (auto simp: less_Suc_eq_le length_dropWhile_le)

definition REGEX_exec :: "string \<Rightarrow> groups option" where
  "REGEX_exec line =
     (let s1 = dropWhile (\<lambda>c. \<not> is_word c) line in
      if s1 = [] then None
      else
        (let t1 = takeWhile is_word s1;
             r1 = dropWhile is_word s1;
             t2 = class_run r1;
             r2 = drop (length t2) r1;
             (t3, r3) = (case r2 of
                           [] \<Rightarrow> (None, r2)
                         | c # cs \<Rightarrow>
                             if c = CHR ''#''
                             then (Some (c # takeWhile is_word_dash cs), dropWhile is_word_dash cs)
                             else (None, r2));
             (t4, r4) = bracketed (CHR ''('') (CHR '')'') r3;
             (t5, r5) = bracketed (CHR ''['') (CHR '']'') r4
         in Some \<lparr>g1 = Some t1, g2 = (if t2 = [] then None else Some t2), g3 = t3,
                   g4 = t4, g5 = t5, g6 = event_run r5 None\<rparr>))"

subsection \<open>From a line to an element\<close>

text \<open>\<^verbatim>\<open>x || null\<close> on a group: an empty string counts as absent.\<close>

definition or_null :: "string option \<Rightarrow> string option" where
  "or_null v = (case v of None \<Rightarrow> None | Some s \<Rightarrow> if s = [] then None else Some s)"

text \<open>\<^verbatim>\<open>/\d/.test(s[0])\<close>; the first character of an empty string is no digit.\<close>

definition starts_with_digit :: "string \<Rightarrow> bool" where
  "starts_with_digit s = (case s of [] \<Rightarrow> False | c # _ \<Rightarrow> is_digit c)"

definition unable_to_parse :: "string \<Rightarrow> error" where
  "unable_to_parse line =
     Error (''HTMLBuilder: unable to parse a line: '' @ [CHR 0x22] @ line @ [CHR 0x22])"

text \<open>
  The bodies of the three loops of \<^verbatim>\<open>_createElementFromLine\<close>. The first two call the
  host and raise what it raises.
\<close>

definition add_class :: "element \<Rightarrow> string \<Rightarrow> error + element" where
  "add_class element c = (if starts_with_digit c then Inr element else classList_add element c)"

definition add_attribute :: "element \<Rightarrow> string \<Rightarrow> error + element" where
  "add_attribute element attr0 =
     (if starts_with_digit attr0 then Inr element
      else
        (let attr = trim attr0 in
         if CHR ''='' \<in> set attr
         then setAttribute element (split_str attr ''='' ! 0) (split_str attr ''='' ! 1)
         else setAttribute element attr []))"

definition add_event :: "HTMLBuilder \<Rightarrow> element \<Rightarrow> string \<Rightarrow> element" where
  "add_event this element n =
     (if starts_with_digit n then element
      else
        (case searchForEvent this n of
           None \<Rightarrow> element
         | Some event \<Rightarrow> addEventListener element (type event) (callback event) (options event)))"

text \<open>
  The part of \<^verbatim>\<open>_createElementFromLine\<close> after the parsing, in three steps. The element is
  created and gets its classes and its attributes, in the order of the source; each of
  these calls can raise. Then the id, the content and the listeners are applied, which
  raise nothing. \<open>None\<close> is a part that is \<^verbatim>\<open>null\<close>.
\<close>

definition create_with_classes :: "string \<Rightarrow> string list option \<Rightarrow> error + element" where
  "create_with_classes tag classes =
     (case createElement tag of
        Inl e \<Rightarrow> Inl e
      | Inr element \<Rightarrow>
          (case classes of None \<Rightarrow> Inr element | Some cs \<Rightarrow> for_each add_class element cs))"

definition finish_element ::
  "HTMLBuilder \<Rightarrow> element \<Rightarrow> string option \<Rightarrow> string option \<Rightarrow> string list option \<Rightarrow> element" where
  "finish_element this element0 ident content events =
     (let element = (case ident of None \<Rightarrow> element0
                     | Some i \<Rightarrow> if i = [] then element0 else set_id element0 i);
          element = (case content of None \<Rightarrow> element
                     | Some c \<Rightarrow> appendChild element (TextNode (decodeHTMLEntities this c)));
          element = (case events of None \<Rightarrow> element | Some ns \<Rightarrow> foldl (add_event this) element ns)
      in element)"

definition materialize ::
  "HTMLBuilder \<Rightarrow> string \<Rightarrow> string list option \<Rightarrow> string list option \<Rightarrow> string option \<Rightarrow>
   string option \<Rightarrow> string list option \<Rightarrow> error + element" where
  "materialize this tag classes attrs ident content events =
     (case create_with_classes tag classes of
        Inl e \<Rightarrow> Inl e
      | Inr element \<Rightarrow>
          (case (case attrs of None \<Rightarrow> Inr element | Some as \<Rightarrow> for_each add_attribute element as) of
             Inl e \<Rightarrow> Inl e
           | Inr element \<Rightarrow> Inr (finish_element this element ident content events)))"

text \<open>
  \<^verbatim>\<open>_createElementFromLine\<close>: the groups of the match are turned into the parts of the
  element; a line without a tag raises the error of the builder.
\<close>

definition createElementFromLine :: "HTMLBuilder \<Rightarrow> string \<Rightarrow> error + element" where
  "createElementFromLine this line =
     (let matches = (case REGEX_exec line of Some m \<Rightarrow> m | None \<Rightarrow> no_groups);
          tagname = or_null (g1 matches);
          classes = map_option (\<lambda>s. filter (\<lambda>v. v \<noteq> []) (split_str s ''.'')) (or_null (g2 matches));
          ident = map_option (remove1 (CHR ''#'')) (or_null (g3 matches));
          content = or_null (g4 matches);
          attrs = map_option (\<lambda>s. split_str s (SYMBOL_BETWEEN_ATTRIBUTES this)) (or_null (g5 matches));
          events = map_option (\<lambda>s. filter (\<lambda>v. v \<noteq> []) (split_str s '';'')) (or_null (g6 matches))
      in case tagname of
           None \<Rightarrow> Inl (unable_to_parse line)
         | Some tag \<Rightarrow> materialize this tag classes attrs ident content events)"

section \<open>Tree reconstruction\<close>

text \<open>
  The pending list of a block: the elements made from the lines under a top-level line,
  each with the level of its line. Reading an entry outside the list is the
  \<^verbatim>\<open>TypeError\<close> the host raises on \<^verbatim>\<open>undefined[1]\<close>.
\<close>

type_synonym pending = "(element \<times> nat) list"

fun maxLevel :: "pending \<Rightarrow> error + nat" where
  "maxLevel [] = Inl TypeError"
| "maxLevel (c # cs) =
     Inr (foldl (\<lambda>max child. if snd child > max then snd child else max) (snd c) (c # cs))"

definition getIndexOfDeepestElement :: "pending \<Rightarrow> error + nat" where
  "getIndexOfDeepestElement children =
     (case maxLevel children of
        Inl e \<Rightarrow> Inl e
      | Inr maxv \<Rightarrow>
          if maxv = 1 then Inr (length children - 1)
          else Inr (foldl (\<lambda>lastIndex i. if snd (children ! i) = maxv then i else lastIndex)
                      1 [0..<length children]))"

definition getIndexOfNearestParentElementOf :: "nat \<Rightarrow> pending \<Rightarrow> error + nat option" where
  "getIndexOfNearestParentElementOf indexOfDeepest children =
     (if indexOfDeepest < length children then
        (let deepest = snd (children ! indexOfDeepest)
         in Inr (foldl (\<lambda>lastIndex i.
                          if int (snd (children ! i)) = int deepest - 1 then Some i else lastIndex)
                   None [0..<indexOfDeepest]))
      else Inl TypeError)"

text \<open>\<^verbatim>\<open>children.splice(i, 1)\<close>: the list without its entry \<open>i\<close>.\<close>

definition splice1 :: "nat \<Rightarrow> 'a list \<Rightarrow> 'a list" where
  "splice1 i xs = take i xs @ drop (Suc i) xs"

text \<open>
  One run of the body of the \<^verbatim>\<open>while\<close> loop of \<^verbatim>\<open>generate\<close>: choose the deepest entry,
  find its parent, prepend it there, remove it from the list.
\<close>

definition reconstruct_step :: "element \<Rightarrow> pending \<Rightarrow> error + element \<times> pending" where
  "reconstruct_step mainElement childrenElements =
     (case getIndexOfDeepestElement childrenElements of
        Inl e \<Rightarrow> Inl e
      | Inr indexOfDeepest \<Rightarrow>
          (case getIndexOfNearestParentElementOf indexOfDeepest childrenElements of
             Inl e \<Rightarrow> Inl e
           | Inr indexOfNearestParent \<Rightarrow>
               (let deepest = ElementNode (fst (childrenElements ! indexOfDeepest)) in
                case indexOfNearestParent of
                  Some p \<Rightarrow>
                    Inr (mainElement,
                         splice1 indexOfDeepest
                           (childrenElements
                              [p := (prepend (fst (childrenElements ! p)) deepest,
                                     snd (childrenElements ! p))]))
                | None \<Rightarrow>
                    Inr (prepend mainElement deepest, splice1 indexOfDeepest childrenElements))))"

subsection \<open>The deepest index is a valid index\<close>

text \<open>
  The loop of \<^verbatim>\<open>generate\<close> ends because every run of its body removes one entry; that
  rests on the index returned by \<^verbatim>\<open>_getIndexOfDeepestElement\<close> lying inside the list.
\<close>

lemma foldl_max_ge: "m \<le> foldl (\<lambda>max child. if snd child > max then snd child else max) m (cs :: pending)"
proof (induction cs arbitrary: m)
  case Nil
  show ?case by simp
next
  case (Cons c cs)
  have "m \<le> (if snd c > m then snd c else m)" by simp
  also have "\<dots> \<le> foldl (\<lambda>max child. if snd child > max then snd child else max)
                     (if snd c > m then snd c else m) cs"
    by (rule Cons.IH)
  finally show ?case by simp
qed

lemma foldl_max_upper:
  "\<forall>c \<in> set cs. snd c \<le> foldl (\<lambda>max child. if snd child > max then snd child else max) m (cs :: pending)"
proof (induction cs arbitrary: m)
  case Nil
  show ?case by simp
next
  case (Cons c cs)
  let ?m' = "if snd c > m then snd c else m"
  have "snd c \<le> ?m'" by simp
  also have "?m' \<le> foldl (\<lambda>max child. if snd child > max then snd child else max) ?m' cs"
    by (rule foldl_max_ge)
  finally have "snd c \<le> foldl (\<lambda>max child. if snd child > max then snd child else max) ?m' cs" .
  with Cons.IH [of ?m'] show ?case by simp
qed

lemma foldl_max_attained:
  "foldl (\<lambda>max child. if snd child > max then snd child else max) m (cs :: pending) = m
   \<or> foldl (\<lambda>max child. if snd child > max then snd child else max) m cs \<in> snd ` set cs"
proof (induction cs arbitrary: m)
  case Nil
  show ?case by simp
next
  case (Cons c cs)
  from Cons.IH [of "if snd c > m then snd c else m"] show ?case
    by (auto split: if_splits)
qed

lemma maxLevel_Max:
  assumes "children \<noteq> []"
  shows "maxLevel children = Inr (Max (snd ` set children))"
proof -
  from assms obtain c cs where ch: "children = c # cs" by (cases children) auto
  let ?r = "foldl (\<lambda>max child. if snd child > max then snd child else max) (snd c) (c # cs)"
  have up: "\<forall>x \<in> set (c # cs). snd x \<le> ?r" by (rule foldl_max_upper)
  have "?r = snd c \<or> ?r \<in> snd ` set (c # cs)" by (rule foldl_max_attained)
  then have mem: "?r \<in> snd ` set (c # cs)" by auto
  have "Max (snd ` set (c # cs)) = ?r"
    by (rule Max_eqI) (use up mem in auto)
  then show ?thesis by (simp add: ch)
qed


lemma foldl_last_index:
  "(if \<exists>i<n. P i
    then foldl (\<lambda>lastIndex i. if P i then i else lastIndex) init [0..<n] < n
       \<and> P (foldl (\<lambda>lastIndex i. if P i then i else lastIndex) init [0..<n])
       \<and> (\<forall>j. foldl (\<lambda>lastIndex i. if P i then i else lastIndex) init [0..<n] < j \<and> j < n
              \<longrightarrow> \<not> P j)
    else foldl (\<lambda>lastIndex i. if P i then i else lastIndex) init [0..<n] = (init :: nat))"
proof (induction n)
  case 0
  show ?case by simp
next
  case (Suc n)
  show ?case
  proof (cases "P n")
    case True
    then show ?thesis by auto
  next
    case False
    then have ex: "(\<exists>i<Suc n. P i) = (\<exists>i<n. P i)"
      by (auto simp: less_Suc_eq)
    show ?thesis
    proof (cases "\<exists>i<n. P i")
      case True
      with Suc.IH False ex show ?thesis
        by (auto simp: less_Suc_eq)
    next
      case no: False
      with Suc.IH False ex show ?thesis
        by auto
    qed
  qed
qed

lemma foldl_last_index_option:
  "(case foldl (\<lambda>lastIndex i. if P i then Some i else lastIndex) None [0..<n] of
      None \<Rightarrow> \<forall>i<n. \<not> P i
    | Some j \<Rightarrow> j < n \<and> P j \<and> (\<forall>k. j < k \<and> k < n \<longrightarrow> \<not> P k))"
proof (induction n)
  case 0
  show ?case by simp
next
  case (Suc n)
  show ?case
  proof (cases "P n")
    case True
    then show ?thesis by auto
  next
    case False
    with Suc.IH show ?thesis
      by (auto simp: less_Suc_eq split: option.splits)
  qed
qed

lemma Max_level_attained:
  assumes "children \<noteq> []"
  shows "\<exists>i<length children. snd (children ! i) = Max (snd ` set (children :: pending))"
proof -
  have "Max (snd ` set children) \<in> snd ` set children"
    by (rule Max_in) (use assms in auto)
  then obtain c where "c \<in> set children" "snd c = Max (snd ` set children)"
    by auto
  then show ?thesis
    by (auto simp: in_set_conv_nth)
qed

lemma getIndexOfDeepestElement_valid:
  assumes "children \<noteq> []"
  shows "\<exists>i. getIndexOfDeepestElement children = Inr i \<and> i < length children"
proof -
  let ?m = "Max (snd ` set children)"
  let ?P = "\<lambda>i. snd (children ! i) = ?m"
  have ml: "maxLevel children = Inr ?m" by (rule maxLevel_Max [OF assms])
  show ?thesis
  proof (cases "?m = 1")
    case True
    with ml assms show ?thesis by (simp add: getIndexOfDeepestElement_def)
  next
    case False
    have "\<exists>i<length children. ?P i" by (rule Max_level_attained [OF assms])
    with foldl_last_index [of "length children" ?P 1]
    have "foldl (\<lambda>lastIndex i. if ?P i then i else lastIndex) 1 [0..<length children] < length children"
      by simp
    with ml False show ?thesis by (simp add: getIndexOfDeepestElement_def)
  qed
qed

lemma reconstruct_step_removes_one:
  assumes "childrenElements \<noteq> []"
  shows "\<exists>m cs. reconstruct_step mainElement childrenElements = Inr (m, cs)
           \<and> Suc (length cs) = length childrenElements"
proof -
  from getIndexOfDeepestElement_valid [OF assms] obtain d
    where d: "getIndexOfDeepestElement childrenElements = Inr d" "d < length childrenElements"
    by blast
  then obtain p where p: "getIndexOfNearestParentElementOf d childrenElements = Inr p"
    by (simp add: getIndexOfNearestParentElementOf_def Let_def)
  from d(2) have len: "\<And>xs :: pending. length xs = length childrenElements \<Longrightarrow>
      Suc (length (splice1 d xs)) = length childrenElements"
    by (auto simp: splice1_def)
  show ?thesis
    using d p len by (cases p) (simp_all add: reconstruct_step_def Let_def)
qed

text \<open>The \<^verbatim>\<open>while\<close> loop of \<^verbatim>\<open>generate\<close>, run until the pending list is empty.\<close>

function reconstruct :: "element \<Rightarrow> pending \<Rightarrow> error + element" where
  "reconstruct mainElement childrenElements =
     (if length childrenElements > 0 then
        (case reconstruct_step mainElement childrenElements of
           Inl e \<Rightarrow> Inl e
         | Inr (m, cs) \<Rightarrow> reconstruct m cs)
      else Inr mainElement)"
  by pat_completeness auto
termination
proof (relation "measure (\<lambda>(m, cs). length cs)")
  show "wf (measure (\<lambda>(m :: element, cs :: pending). length cs))" by simp
next
  fix mainElement :: element and childrenElements :: pending and x m cs
  assume "0 < length childrenElements"
    and "reconstruct_step mainElement childrenElements = Inr x" and "(m, cs) = x"
  with reconstruct_step_removes_one [of childrenElements mainElement]
  show "((m, cs), (mainElement, childrenElements)) \<in> measure (\<lambda>(m, cs). length cs)"
    by auto
qed

declare reconstruct.simps [simp del]

section \<open>Compiling a template\<close>

text \<open>
  The inner \<^verbatim>\<open>for\<close> loop of \<^verbatim>\<open>generate\<close>: the lines \<open>ks\<close> under a top-level line become
  elements, pushed on the pending list with their level; the first line without a tag
  ends the loop with its error.
\<close>

fun create_children :: "HTMLBuilder \<Rightarrow> string list \<Rightarrow> nat list \<Rightarrow> pending \<Rightarrow> error + pending" where
  "create_children this lines [] childrenElements = Inr childrenElements"
| "create_children this lines (k # ks) childrenElements =
     (case createElementFromLine this (lines ! k) of
        Inl e \<Rightarrow> Inl e
      | Inr child \<Rightarrow>
          create_children this lines ks (childrenElements @ [(child, level (lines ! k))]))"

text \<open>
  The body of the outer loop up to the root of the block: the element of the top-level
  line at index \<open>mainLevel\<close>, its pending list from the lines up to \<open>nextMainLevel\<close>,
  and the reconstruction.
\<close>

definition build_block :: "HTMLBuilder \<Rightarrow> string list \<Rightarrow> string \<Rightarrow> nat \<Rightarrow> nat \<Rightarrow> error + element" where
  "build_block this lines mainLine mainLevel nextMainLevel =
     (case createElementFromLine this mainLine of
        Inl e \<Rightarrow> Inl e
      | Inr mainElement \<Rightarrow>
          (case create_children this lines [mainLevel + 1..<nextMainLevel] [] of
             Inl e \<Rightarrow> Inl e
           | Inr childrenElements \<Rightarrow> reconstruct mainElement childrenElements))"

text \<open>
  The outer loop over \<^verbatim>\<open>mainLines\<close>. A block that raises leaves the builder as the blocks
  before it made it; a block that is built is appended to the parent.
\<close>

fun generate_blocks ::
  "HTMLBuilder \<Rightarrow> string list \<Rightarrow> (string \<times> nat) list \<Rightarrow> (error + unit) \<times> HTMLBuilder" where
  "generate_blocks this lines [] = (Inr (), this)"
| "generate_blocks this lines ((mainLine, mainLevel) # rest) =
     (let nextMainLevel = (case rest of [] \<Rightarrow> length lines | (l, n) # r \<Rightarrow> n) in
      case build_block this lines mainLine mainLevel nextMainLevel of
        Inl e \<Rightarrow> (Inl e, this)
      | Inr mainElement \<Rightarrow>
          generate_blocks (this\<lparr>parent := appendChild (parent this) (ElementNode mainElement)\<rparr>)
            lines rest)"

text \<open>The first loop of \<^verbatim>\<open>generate\<close>: the lines of level 0, each with its index.\<close>

definition mainLines_of :: "string list \<Rightarrow> (string \<times> nat) list" where
  "mainLines_of lines = map (\<lambda>i. (lines ! i, i)) (filter (\<lambda>i. level (lines ! i) = 0) [0..<length lines])"

definition generate :: "HTMLBuilder \<Rightarrow> string \<Rightarrow> (error + unit) \<times> HTMLBuilder" where
  "generate this template =
     (if length (trim template) = 0 then (Inr (), this)
      else (let lines = extractLinesFrom template in generate_blocks this lines (mainLines_of lines)))"

section \<open>Properties of the model\<close>

subsection \<open>The reconstruction loop\<close>

text \<open>
  The loop body run \<open>k\<close> times in a row, whatever the loop condition says: it counts the
  iterations of the \<^verbatim>\<open>while\<close> loop.
\<close>

fun steps :: "nat \<Rightarrow> element \<Rightarrow> pending \<Rightarrow> error + element \<times> pending" where
  "steps 0 m cs = Inr (m, cs)"
| "steps (Suc k) m cs =
     (case reconstruct_step m cs of Inl e \<Rightarrow> Inl e | Inr (m', cs') \<Rightarrow> steps k m' cs')"

lemma steps_length:
  "k \<le> length cs \<Longrightarrow> \<exists>m' cs'. steps k m cs = Inr (m', cs') \<and> length cs' = length cs - k"
proof (induction k arbitrary: m cs)
  case 0
  show ?case by simp
next
  case (Suc k)
  then have "cs \<noteq> []" by auto
  from reconstruct_step_removes_one [OF this, of m] obtain m1 cs1
    where s: "reconstruct_step m cs = Inr (m1, cs1)" "Suc (length cs1) = length cs"
    by blast
  with Suc.prems have "k \<le> length cs1" by simp
  from Suc.IH [OF this, of m1] s show ?case by auto
qed

lemma reconstruct_steps:
  "\<exists>r. reconstruct m cs = Inr r \<and> steps (length cs) m cs = Inr (r, [])"
proof (induction "length cs" arbitrary: m cs)
  case 0
  then show ?case by (simp add: reconstruct.simps)
next
  case (Suc n)
  then have ne: "cs \<noteq> []" by auto
  from reconstruct_step_removes_one [OF this, of m] obtain m1 cs1
    where s: "reconstruct_step m cs = Inr (m1, cs1)" "Suc (length cs1) = length cs"
    by blast
  with Suc.hyps(2) have "n = length cs1" by simp
  from Suc.hyps(1) [OF this, of m1] obtain r
    where r: "reconstruct m1 cs1 = Inr r" "steps (length cs1) m1 cs1 = Inr (r, [])"
    by blast
  have "reconstruct m cs = Inr r"
    using ne s r by (subst reconstruct.simps) simp
  moreover have "steps (length cs) m cs = Inr (r, [])"
    using s r by (simp flip: s(2))
  ultimately show ?case by simp
qed

lemma childNodes_prepend: "childNodes (prepend e n) = n # childNodes e"
  by (cases e) simp

lemma splice1_nth_before: "j < d \<Longrightarrow> d < length xs \<Longrightarrow> splice1 d xs ! j = xs ! j"
  by (simp add: splice1_def nth_append)

lemma length_splice1: "d < length xs \<Longrightarrow> Suc (length (splice1 d xs)) = length xs"
  by (auto simp: splice1_def)

lemma reconstruct_Inr: "\<exists>r. reconstruct m cs = Inr r"
  using reconstruct_steps [of m cs] by blast

subsection \<open>What a line can raise\<close>

lemma REGEX_exec_None_iff: "REGEX_exec line = None \<longleftrightarrow> (\<forall>c \<in> set line. \<not> is_word c)"
proof -
  have "dropWhile (\<lambda>c. \<not> is_word c) line = [] \<longleftrightarrow> (\<forall>c \<in> set line. \<not> is_word c)"
    by (simp add: dropWhile_eq_Nil_conv)
  then show ?thesis
    by (simp add: REGEX_exec_def Let_def split: prod.splits)
qed

lemma REGEX_exec_tag:
  assumes "REGEX_exec line = Some m"
  shows "\<exists>t. g1 m = Some t \<and> t \<noteq> []"
proof -
  let ?s1 = "dropWhile (\<lambda>c. \<not> is_word c) line"
  from assms have ne: "?s1 \<noteq> []"
    by (auto simp: REGEX_exec_def Let_def split: if_splits)
  then have "is_word (hd ?s1)"
    using hd_dropWhile [of "\<lambda>c. \<not> is_word c" line] by simp
  with ne have "takeWhile is_word ?s1 \<noteq> []"
    by (cases ?s1) auto
  with assms ne show ?thesis
    unfolding REGEX_exec_def Let_def by (auto split: prod.splits if_splits)
qed

lemma REGEX_exec_Nil: "REGEX_exec [] = None"
  by (simp add: REGEX_exec_def)

lemma createElementFromLine_None:
  assumes "REGEX_exec line = None"
  shows "createElementFromLine this line = Inl (unable_to_parse line)"
  using assms by (simp add: createElementFromLine_def no_groups_def or_null_def)

lemma createElementFromLine_Some:
  assumes "REGEX_exec line = Some m"
  shows "createElementFromLine this line =
     materialize this (the (g1 m))
        (map_option (\<lambda>s. filter (\<lambda>v. v \<noteq> []) (split_str s ''.'')) (or_null (g2 m)))
        (map_option (\<lambda>s. split_str s (SYMBOL_BETWEEN_ATTRIBUTES this)) (or_null (g5 m)))
        (map_option (remove1 (CHR ''#'')) (or_null (g3 m)))
        (or_null (g4 m))
        (map_option (\<lambda>s. filter (\<lambda>v. v \<noteq> []) (split_str s '';'')) (or_null (g6 m)))"
proof -
  from REGEX_exec_tag [OF assms] obtain t where "g1 m = Some t" "t \<noteq> []" by blast
  with assms show ?thesis
    by (simp add: createElementFromLine_def or_null_def Let_def)
qed

lemma for_each_Inl:
  assumes "for_each f a xs = Inl e" and "\<And>a x. f a x = Inl e \<Longrightarrow> P"
  shows P
  using assms
proof (induction xs arbitrary: a)
  case Nil
  then show ?case by simp
next
  case (Cons x xs)
  show ?case
  proof (cases "f a x")
    case (Inl e')
    with Cons.prems(1) have "f a x = Inl e" by simp
    then show ?thesis by (rule Cons.prems(2))
  next
    case (Inr a')
    with Cons.prems(1) have "for_each f a' xs = Inl e" by simp
    then show ?thesis using Cons.prems(2) by (rule Cons.IH)
  qed
qed

lemma for_each_invariant:
  assumes "for_each f a xs = Inr b" and "\<And>a x a'. f a x = Inr a' \<Longrightarrow> g a' = g a"
  shows "g b = g a"
  using assms(1)
proof (induction xs arbitrary: a)
  case Nil
  then show ?case by simp
next
  case (Cons x xs)
  then obtain a' where a': "f a x = Inr a'" "for_each f a' xs = Inr b"
    by (cases "f a x") simp_all
  from Cons.IH [OF a'(2)] assms(2) [OF a'(1)] show ?case by simp
qed

lemma add_class_Inl:
  "add_class element c = Inl e \<Longrightarrow> e = InvalidCharacterError \<or> e = SyntaxError"
  by (auto simp: add_class_def classList_add_def split: if_splits)

lemma add_attribute_Inl: "add_attribute element a = Inl e \<Longrightarrow> e = InvalidCharacterError"
  by (auto simp: add_attribute_def setAttribute_def Let_def split: if_splits)

lemma materialize_Inl:
  assumes "materialize this tag classes attrs ident content events = Inl e"
  shows "e = InvalidCharacterError \<or> e = SyntaxError"
proof (cases "create_with_classes tag classes")
  case (Inl e')
  with assms have e: "e' = e" by (simp add: materialize_def)
  show ?thesis
  proof (cases "createElement tag")
    case inl: (Inl e'')
    with Inl e show ?thesis
      by (auto simp: create_with_classes_def createElement_def split: if_splits)
  next
    case (Inr element)
    with Inl e obtain cs where "for_each add_class element cs = Inl e"
      by (auto simp: create_with_classes_def split: option.splits)
    then show ?thesis by (rule for_each_Inl) (rule add_class_Inl)
  qed
next
  case (Inr element)
  with assms obtain as where "for_each add_attribute element as = Inl e"
    by (auto simp: materialize_def split: option.splits sum.splits)
  then have "e = InvalidCharacterError" by (rule for_each_Inl) (rule add_attribute_Inl)
  then show ?thesis by simp
qed

lemma createElementFromLine_Inl:
  assumes "createElementFromLine this line = Inl e"
  shows "(REGEX_exec line = None \<and> e = unable_to_parse line)
       \<or> (REGEX_exec line \<noteq> None \<and> (e = InvalidCharacterError \<or> e = SyntaxError))"
proof (cases "REGEX_exec line")
  case None
  with assms createElementFromLine_None [OF None, of this] show ?thesis by simp
next
  case (Some m)
  with assms createElementFromLine_Some [OF Some, of this] materialize_Inl show ?thesis
    by auto
qed

lemma createElementFromLine_not_TypeError: "createElementFromLine this line \<noteq> Inl TypeError"
  using createElementFromLine_Inl [of this line TypeError] by (auto simp: unable_to_parse_def)

lemma finish_element_parent [simp]:
  "finish_element (this\<lparr>parent := p\<rparr>) = finish_element this"
proof -
  have "add_event (this\<lparr>parent := p\<rparr>) = add_event this"
    by (intro ext) (simp add: add_event_def searchForEvent_def)
  then show ?thesis
    by (intro ext) (simp add: finish_element_def Let_def cong: option.case_cong)
qed

lemma materialize_parent [simp]:
  "materialize (this\<lparr>parent := p\<rparr>) = materialize this"
  by (intro ext) (simp add: materialize_def cong: sum.case_cong)

lemma createElementFromLine_parent [simp]:
  "createElementFromLine (this\<lparr>parent := p\<rparr>) line = createElementFromLine this line"
  by (simp add: createElementFromLine_def Let_def cong: option.case_cong)

lemma create_children_parent [simp]:
  "create_children (this\<lparr>parent := p\<rparr>) lines ks acc = create_children this lines ks acc"
  by (induction ks arbitrary: acc) (simp_all split: sum.splits)

lemma build_block_parent [simp]:
  "build_block (this\<lparr>parent := p\<rparr>) lines l i j = build_block this lines l i j"
  by (simp add: build_block_def cong: sum.case_cong)

lemma create_children_Inl:
  "create_children this lines ks acc = Inl e \<Longrightarrow>
     \<exists>k \<in> set ks. createElementFromLine this (lines ! k) = Inl e"
proof (induction ks arbitrary: acc)
  case Nil
  then show ?case by simp
next
  case (Cons k ks)
  show ?case
  proof (cases "createElementFromLine this (lines ! k)")
    case (Inl e')
    with Cons.prems have "e' = e" by simp
    with Inl show ?thesis by simp
  next
    case (Inr child)
    with Cons.prems Cons.IH show ?thesis by auto
  qed
qed

lemma create_children_Inr_iff:
  "(\<exists>cs. create_children this lines ks acc = Inr cs)
     \<longleftrightarrow> (\<forall>k \<in> set ks. \<not> isl (createElementFromLine this (lines ! k)))"
proof (induction ks arbitrary: acc)
  case Nil
  show ?case by simp
next
  case (Cons k ks)
  show ?case
  proof (cases "createElementFromLine this (lines ! k)")
    case (Inl e')
    then show ?thesis by simp
  next
    case (Inr child)
    with Cons.IH show ?thesis by simp
  qed
qed

lemma build_block_Inl:
  assumes "build_block this lines l i j = Inl e"
  shows "createElementFromLine this l = Inl e
       \<or> (\<exists>k. i < k \<and> k < j \<and> createElementFromLine this (lines ! k) = Inl e)"
proof (cases "createElementFromLine this l")
  case (Inl e')
  with assms have "e' = e" by (simp add: build_block_def)
  with Inl show ?thesis by simp
next
  case (Inr mainElement)
  show ?thesis
  proof (cases "create_children this lines [i + 1..<j] []")
    case (Inl e')
    with Inr assms have "e' = e" by (simp add: build_block_def)
    with create_children_Inl [OF Inl] obtain k
      where "i < k" "k < j" "createElementFromLine this (lines ! k) = Inl e"
      by (auto simp: Suc_le_eq)
    then show ?thesis by blast
  next
    case inr: (Inr cs)
    with Inr assms reconstruct_Inr [of mainElement cs] show ?thesis
      by (auto simp: build_block_def)
  qed
qed

lemma build_block_Inr_iff:
  "(\<exists>r. build_block this lines l i j = Inr r)
     \<longleftrightarrow> \<not> isl (createElementFromLine this l)
         \<and> (\<forall>k. i < k \<and> k < j \<longrightarrow> \<not> isl (createElementFromLine this (lines ! k)))"
proof (cases "createElementFromLine this l")
  case (Inl e')
  then show ?thesis by (simp add: build_block_def)
next
  case (Inr mainElement)
  show ?thesis
  proof (cases "create_children this lines [i + 1..<j] []")
    case (Inl e')
    from create_children_Inl [OF this] obtain k
      where "i < k" "k < j" "isl (createElementFromLine this (lines ! k))"
      by (auto simp: Suc_le_eq)
    then have "\<not> (\<forall>k. i < k \<and> k < j \<longrightarrow> \<not> isl (createElementFromLine this (lines ! k)))"
      by blast
    moreover have "\<not> (\<exists>r. build_block this lines l i j = Inr r)"
      using Inl Inr by (simp add: build_block_def)
    ultimately show ?thesis by blast
  next
    case inr: (Inr cs)
    then have "\<forall>k \<in> set [i + 1..<j]. \<not> isl (createElementFromLine this (lines ! k))"
      using create_children_Inr_iff [of this lines "[i + 1..<j]" "[]"] by blast
    with inr Inr reconstruct_Inr [of mainElement cs] show ?thesis
      by (auto simp: build_block_def)
  qed
qed

subsection \<open>The blocks of a template\<close>

text \<open>
  The outer loop of \<^verbatim>\<open>generate\<close> goes through \<^verbatim>\<open>mainLines\<close> with, for each entry, the
  index of the next one (or the number of lines): \<open>blocks\<close> lists these triples, and
  \<open>block_results\<close> what the loop body makes of each of them.
\<close>

fun blocks :: "nat \<Rightarrow> (string \<times> nat) list \<Rightarrow> (string \<times> nat \<times> nat) list" where
  "blocks n [] = []"
| "blocks n ((mainLine, mainLevel) # rest) =
     (mainLine, mainLevel, (case rest of [] \<Rightarrow> n | (l, nextMainLevel) # r \<Rightarrow> nextMainLevel))
       # blocks n rest"

definition block_results :: "HTMLBuilder \<Rightarrow> string list \<Rightarrow> (string \<times> nat) list \<Rightarrow> (error + element) list" where
  "block_results this lines mainLines =
     map (\<lambda>(mainLine, mainLevel, nextMainLevel). build_block this lines mainLine mainLevel nextMainLevel)
       (blocks (length lines) mainLines)"

lemma block_results_parent [simp]:
  "block_results (this\<lparr>parent := p\<rparr>) lines mls = block_results this lines mls"
  by (simp add: block_results_def)

text \<open>
  What the outer loop leaves behind, read off the results of the blocks: the roots of
  the blocks built before the first one that raised, and the error of that one.
\<close>

definition built_roots :: "(error + element) list \<Rightarrow> element list" where
  "built_roots rs = map projr (takeWhile (\<lambda>r. \<not> isl r) rs)"

definition first_error :: "(error + element) list \<Rightarrow> error + unit" where
  "first_error rs = (case dropWhile (\<lambda>r. \<not> isl r) rs of [] \<Rightarrow> Inr () | r # rest \<Rightarrow> Inl (projl r))"

lemma generate_blocks_eq:
  "generate_blocks this lines mls =
     (first_error (block_results this lines mls),
      this\<lparr>parent := foldl appendChild (parent this)
                          (map ElementNode (built_roots (block_results this lines mls)))\<rparr>)"
proof (induction mls arbitrary: this)
  case Nil
  show ?case by (simp add: block_results_def first_error_def built_roots_def)
next
  case (Cons ml mls)
  obtain l i where ml: "ml = (l, i)" by (cases ml)
  let ?next = "case mls of [] \<Rightarrow> length lines | (l', n) # r \<Rightarrow> n"
  have rs: "block_results this lines ((l, i) # mls)
              = build_block this lines l i ?next # block_results this lines mls"
    by (simp add: block_results_def)
  show ?case
  proof (cases "build_block this lines l i ?next")
    case (Inl e)
    then show ?thesis by (simp add: rs ml first_error_def built_roots_def)
  next
    case (Inr root)
    then show ?thesis
      by (simp add: rs ml Cons.IH first_error_def built_roots_def)
  qed
qed

lemma childNodes_appendChild: "childNodes (appendChild e n) = childNodes e @ [n]"
  by (cases e) simp

lemma childNodes_foldl_appendChild: "childNodes (foldl appendChild e ns) = childNodes e @ ns"
  by (induction ns arbitrary: e) (simp_all add: childNodes_appendChild)

lemma generate_eq:
  assumes "trim template \<noteq> []"
  shows "generate this template =
     (first_error (block_results this (extractLinesFrom template) (mainLines_of (extractLinesFrom template))),
      this\<lparr>parent := foldl appendChild (parent this)
          (map ElementNode (built_roots
             (block_results this (extractLinesFrom template) (mainLines_of (extractLinesFrom template)))))\<rparr>)"
  using assms by (simp add: generate_def generate_blocks_eq Let_def)

lemma first_error_cases:
  "first_error rs = Inr () \<and> (\<forall>r \<in> set rs. \<not> isl r)
   \<or> (\<exists>r \<in> set rs. isl r \<and> first_error rs = Inl (projl r))"
proof (cases "dropWhile (\<lambda>r. \<not> isl r) rs")
  case Nil
  then have all: "\<forall>r \<in> set rs. \<not> isl r" by (simp add: dropWhile_eq_Nil_conv)
  have "first_error rs = Inr ()" unfolding first_error_def Nil by simp
  with all show ?thesis by simp
next
  case (Cons r rest)
  then have "r \<in> set rs" by (metis list.set_intros(1) set_dropWhileD)
  moreover have "isl r" using Cons hd_dropWhile [of "\<lambda>r. \<not> isl r" rs] by auto
  ultimately show ?thesis using Cons by (auto simp: first_error_def)
qed

text \<open>
  Between a top-level line and the next one no line has level 0, and the lines of a
  block are lines of the template.
\<close>

lemma filter_upt_Cons:
  assumes "filter P [b..<n] = j # js"
  shows "b \<le> j \<and> j < n \<and> P j \<and> (\<forall>k. b \<le> k \<and> k < j \<longrightarrow> \<not> P k) \<and> js = filter P [Suc j..<n]"
  using assms
proof (induction "n - b" arbitrary: b)
  case 0
  then show ?case by simp
next
  case (Suc d)
  then have lt: "b < n" and d: "d = n - Suc b" by simp_all
  have step: "[b..<n] = b # [Suc b..<n]" using lt by (rule upt_conv_Cons)
  show ?case
  proof (cases "P b")
    case True
    with Suc.prems step lt show ?thesis by auto
  next
    case False
    with Suc.prems step have "filter P [Suc b..<n] = j # js" by simp
    from Suc.hyps(1) [OF d this]
    have ih: "Suc b \<le> j" "j < n" "P j" "\<forall>k. Suc b \<le> k \<and> k < j \<longrightarrow> \<not> P k"
      "js = filter P [Suc j..<n]" by simp_all
    have "\<not> P k" if "b \<le> k" "k < j" for k
    proof (cases "k = b")
      case True
      with False show ?thesis by simp
    next
      case neq: False
      with that have "Suc b \<le> k" by simp
      with ih(4) that show ?thesis by blast
    qed
    with ih show ?thesis by simp

  qed
qed

lemma blocks_filter_upt:
  assumes "(l, i, nxt) \<in> set (blocks n (map (\<lambda>i. (lines ! i, i)) (filter P [b..<n])))"
  shows "l = lines ! i \<and> b \<le> i \<and> i < nxt \<and> nxt \<le> n \<and> P i \<and> (\<forall>k. i < k \<and> k < nxt \<longrightarrow> \<not> P k)"
  using assms
proof (induction "filter P [b..<n]" arbitrary: b)
  case Nil
  then show ?case by simp
next
  case (Cons j js)
  from filter_upt_Cons [OF Cons.hyps(2) [symmetric]]
  have j: "b \<le> j" "j < n" "P j" and js: "js = filter P [Suc j..<n]" by simp_all
  let ?nx = "case js of [] \<Rightarrow> n | j' # r \<Rightarrow> j'"
  have bl: "blocks n (map (\<lambda>i. (lines ! i, i)) (filter P [b..<n]))
              = (lines ! j, j, ?nx) # blocks n (map (\<lambda>i. (lines ! i, i)) js)"
    unfolding Cons.hyps(2) [symmetric] by (cases js) simp_all
  from Cons.prems bl
  consider "(l, i, nxt) = (lines ! j, j, ?nx)"
    | "(l, i, nxt) \<in> set (blocks n (map (\<lambda>i. (lines ! i, i)) js))"
    by auto
  then show ?case
  proof cases
    case 1
    show ?thesis
    proof (cases js)
      case Nil
      with js have "filter P [Suc j..<n] = []" by simp
      then have "\<forall>k. j < k \<and> k < n \<longrightarrow> \<not> P k"
        by (auto simp: filter_empty_conv)
      with 1 Nil j show ?thesis by simp
    next
      case (Cons j' r)
      with js have "filter P [Suc j..<n] = j' # r" by simp
      from filter_upt_Cons [OF this]
      have "Suc j \<le> j'" "j' < n" "\<forall>k. Suc j \<le> k \<and> k < j' \<longrightarrow> \<not> P k" by simp_all
      with 1 Cons j show ?thesis by (auto simp: Suc_le_eq)
    qed
  next
    case 2
    with js have "(l, i, nxt) \<in> set (blocks n (map (\<lambda>i. (lines ! i, i)) (filter P [Suc j..<n])))"
      by simp
    from Cons.hyps(1) [OF js this] j(1) show ?thesis by simp
  qed
qed

lemma create_children_levels:
  "create_children this lines ks acc = Inr cs \<Longrightarrow>
     map snd cs = map snd acc @ map (\<lambda>k. level (lines ! k)) ks"
proof (induction ks arbitrary: acc)
  case Nil
  then show ?case by simp
next
  case (Cons k ks)
  then obtain child where "createElementFromLine this (lines ! k) = Inr child"
    "create_children this lines ks (acc @ [(child, level (lines ! k))]) = Inr cs"
    by (cases "createElementFromLine this (lines ! k)") simp_all
  from Cons.IH [OF this(2)] show ?case by simp
qed

lemma block_pending_levels:
  assumes "(l, i, nxt) \<in> set (blocks (length lines) (mainLines_of lines))"
    and "create_children this lines [i + 1..<nxt] [] = Inr cs"
  shows "\<forall>c \<in> set cs. 1 \<le> snd c"
proof
  fix c
  assume c: "c \<in> set cs"
  have "(l, i, nxt) \<in> set (blocks (length lines)
          (map (\<lambda>i. (lines ! i, i)) (filter (\<lambda>i. level (lines ! i) = 0) [0..<length lines])))"
    using assms(1) unfolding mainLines_of_def .
  from blocks_filter_upt [OF this]
  have gap: "\<forall>k. i < k \<and> k < nxt \<longrightarrow> level (lines ! k) \<noteq> 0" by blast
  have lev: "map snd cs = map (\<lambda>k. level (lines ! k)) [i + 1..<nxt]"
    using create_children_levels [OF assms(2)] by simp
  from c have "snd c \<in> set (map snd cs)" by (rule imageI [of c "set cs" snd, folded set_map])
  then obtain k where k: "i + 1 \<le> k" "k < nxt" "snd c = level (lines ! k)"
    unfolding lev by auto
  from k(1) have "i < k" by simp
  with gap k(2,3) have "snd c \<noteq> 0" by simp
  then show "1 \<le> snd c" by simp
qed

lemma block_results_Inl:
  assumes "r \<in> set (block_results this lines (mainLines_of lines))" "isl r"
  shows "\<exists>k < length lines. createElementFromLine this (lines ! k) = Inl (projl r)"
proof -
  from assms(1) obtain l i j
    where b: "(l, i, j) \<in> set (blocks (length lines) (mainLines_of lines))"
      "r = build_block this lines l i j"
    by (auto simp: block_results_def)
  from b(1) have "(l, i, j) \<in> set (blocks (length lines)
          (map (\<lambda>i. (lines ! i, i)) (filter (\<lambda>i. level (lines ! i) = 0) [0..<length lines])))"
    unfolding mainLines_of_def .
  from blocks_filter_upt [OF this] have l: "l = lines ! i" "i < j" "j \<le> length lines" by simp_all
  from assms(2) obtain e where e: "r = Inl e" by (cases r) auto
  with b(2) have "build_block this lines l i j = Inl e" by simp
  from build_block_Inl [OF this]
  consider "createElementFromLine this (lines ! i) = Inl e"
    | k where "i < k" "k < j" "createElementFromLine this (lines ! k) = Inl e"
    using l(1) by auto
  then show ?thesis
  proof cases
    case 1
    moreover from l have "i < length lines" by simp
    ultimately show ?thesis using e by auto
  next
    case 2
    moreover from 2 l have "k < length lines" by simp
    ultimately show ?thesis using e by auto
  qed
qed

lemma generate_blocks_not_TypeError:
  "fst (generate_blocks this lines (mainLines_of lines)) \<noteq> Inl TypeError"
proof
  assume t: "fst (generate_blocks this lines (mainLines_of lines)) = Inl TypeError"
  from first_error_cases [of "block_results this lines (mainLines_of lines)"] t
  obtain r where r: "r \<in> set (block_results this lines (mainLines_of lines))" "isl r"
    "projl r = TypeError"
    by (auto simp: generate_blocks_eq)
  from block_results_Inl [OF r(1,2)] r(3) createElementFromLine_not_TypeError show False
    by auto
qed

lemma blocks_cover:
  assumes "is \<noteq> []" "hd is \<le> k" "k < n"
  shows "\<exists>i nxt. (lines ! i, i, nxt) \<in> set (blocks n (map (\<lambda>i. (lines ! i, i)) is)) \<and> i \<le> k \<and> k < nxt"
  using assms
proof (induction "is")
  case Nil
  then show ?case by simp
next
  case (Cons i "is")
  show ?case
  proof (cases "is")
    case Nil
    with Cons.prems show ?thesis by auto
  next
    case (Cons j js)
    show ?thesis
    proof (cases "k < j")
      case True
      with Cons Cons.prems show ?thesis by auto
    next
      case False
      with Cons have "is \<noteq> []" "hd is \<le> k" by auto
      from Cons.IH [OF this Cons.prems(3)] show ?thesis by auto
    qed
  qed
qed

lemma hd_filter_upt_le:
  assumes "j < n" "P j"
  shows "filter P [0..<n] \<noteq> [] \<and> hd (filter P [0..<n]) \<le> j"
proof -
  have mem: "j \<in> set (filter P [0..<n])" using assms by simp
  have ne: "filter P [0..<n] \<noteq> []" using assms by (auto simp: filter_empty_conv)
  have "sorted (filter P [0..<n])" by (simp add: sorted_wrt_filter)
  with mem ne have "hd (filter P [0..<n]) \<le> j"
    by (cases "filter P [0..<n]") auto
  with ne show ?thesis by simp
qed

lemma failing_block:
  assumes "k < length lines" "isl (createElementFromLine this (lines ! k))"
    "j \<le> k" "level (lines ! j) = 0"
  shows "\<exists>r \<in> set (block_results this lines (mainLines_of lines)). isl r"
proof -
  let ?is = "filter (\<lambda>i. level (lines ! i) = 0) [0..<length lines]"
  from assms have "j < length lines" by simp
  from hd_filter_upt_le [OF this, of "\<lambda>i. level (lines ! i) = 0"] assms(4)
  have ne: "?is \<noteq> []" and "hd ?is \<le> j" by simp_all
  with assms(3) have "hd ?is \<le> k" by simp
  from blocks_cover [OF ne this assms(1), of lines] obtain i nxt
    where b: "(lines ! i, i, nxt) \<in> set (blocks (length lines) (mainLines_of lines))"
      and ik: "i \<le> k" "k < nxt"
    by (auto simp: mainLines_of_def)
  have "\<not> (\<exists>r. build_block this lines (lines ! i) i nxt = Inr r)"
  proof (cases "i = k")
    case True
    with assms(2) show ?thesis by (simp add: build_block_Inr_iff)
  next
    case False
    with ik have "i < k" by simp
    with ik(2) assms(2) show ?thesis by (auto simp: build_block_Inr_iff)
  qed
  then have "isl (build_block this lines (lines ! i) i nxt)"
    by (cases "build_block this lines (lines ! i) i nxt") auto
  moreover have "build_block this lines (lines ! i) i nxt
                   \<in> set (block_results this lines (mainLines_of lines))"
    using b by (force simp: block_results_def)
  ultimately show ?thesis by blast
qed

lemma first_failure:
  assumes "\<exists>r \<in> set rs. isl r"
  shows "\<exists>n. n < length rs \<and> (\<forall>i<n. \<not> isl (rs ! i)) \<and> isl (rs ! n)
            \<and> first_error rs = Inl (projl (rs ! n)) \<and> built_roots rs = map projr (take n rs)"
proof -
  let ?P = "\<lambda>r :: error + element. \<not> isl r"
  let ?n = "length (takeWhile ?P rs)"
  have "?n \<noteq> length rs"
  proof
    assume eq: "?n = length rs"
    have "takeWhile ?P rs = take ?n rs" by (rule takeWhile_eq_take)
    also have "\<dots> = rs" by (simp add: eq)
    finally have "takeWhile ?P rs = rs" .
    then have "\<forall>r \<in> set rs. ?P r" by (simp add: takeWhile_eq_all_conv)
    with assms show False by blast
  qed
  with length_takeWhile_le [of ?P rs] have lt: "?n < length rs" by simp
  then have bad: "isl (rs ! ?n)"
    using nth_length_takeWhile [of ?P rs] by simp
  have ok: "\<forall>i<?n. \<not> isl (rs ! i)"
  proof (intro allI impI)
    fix i
    assume i: "i < ?n"
    then have "takeWhile ?P rs ! i \<in> set (takeWhile ?P rs)" by (rule nth_mem)
    then have "?P (takeWhile ?P rs ! i)" by (blast dest: set_takeWhileD)
    with takeWhile_nth [OF i] show "\<not> isl (rs ! i)" by simp
  qed
  have "dropWhile ?P rs = drop ?n rs" by (rule dropWhile_eq_drop)
  also have "\<dots> = rs ! ?n # drop (Suc ?n) rs" by (rule Cons_nth_drop_Suc [OF lt, symmetric])
  finally have dw: "dropWhile ?P rs = rs ! ?n # drop (Suc ?n) rs" .
  have "first_error rs = Inl (projl (rs ! ?n))" unfolding first_error_def dw by simp
  moreover have "built_roots rs = map projr (take ?n rs)"
  proof -
    have tk: "takeWhile ?P rs = take ?n rs" by (rule takeWhile_eq_take)
    have "built_roots rs = map projr (takeWhile ?P rs)" by (simp add: built_roots_def)
    also have "\<dots> = map projr (take ?n rs)" using tk by (rule arg_cong)
    finally show ?thesis .
  qed
  ultimately show ?thesis using lt bad ok by blast
qed

lemma generate_raises:
  assumes "trim template \<noteq> []"
    and "k < length (extractLinesFrom template)"
    and "isl (createElementFromLine this (extractLinesFrom template ! k))"
    and "j \<le> k" and "level (extractLinesFrom template ! j) = 0"
  shows "\<exists>n e k'. n < length (block_results this (extractLinesFrom template) (mainLines_of (extractLinesFrom template)))
      \<and> (\<forall>i<n. \<not> isl (block_results this (extractLinesFrom template) (mainLines_of (extractLinesFrom template)) ! i))
      \<and> block_results this (extractLinesFrom template) (mainLines_of (extractLinesFrom template)) ! n
           = Inl e
      \<and> k' < length (extractLinesFrom template)
      \<and> createElementFromLine this (extractLinesFrom template ! k') = Inl e
      \<and> generate this template =
          (Inl e,
           this\<lparr>parent := foldl appendChild (parent this)
              (map (\<lambda>r. ElementNode (projr r))
                 (take n (block_results this (extractLinesFrom template) (mainLines_of (extractLinesFrom template)))))\<rparr>)"
proof -
  let ?lines = "extractLinesFrom template"
  let ?rs = "block_results this ?lines (mainLines_of ?lines)"
  from failing_block [OF assms(2-5)] have "\<exists>r \<in> set ?rs. isl r" .
  from first_failure [OF this] obtain n
    where n: "n < length ?rs" "\<forall>i<n. \<not> isl (?rs ! i)" "isl (?rs ! n)"
      "first_error ?rs = Inl (projl (?rs ! n))" "built_roots ?rs = map projr (take n ?rs)"
    by blast
  from n(1) have "?rs ! n \<in> set ?rs" by simp
  from block_results_Inl [OF this n(3)] obtain k'
    where k': "k' < length ?lines" "createElementFromLine this (?lines ! k') = Inl (projl (?rs ! n))"
    by blast
  from n(3) have rn: "?rs ! n = Inl (projl (?rs ! n))" by (cases "?rs ! n") auto
  have "generate this template =
          (Inl (projl (?rs ! n)),
           this\<lparr>parent := foldl appendChild (parent this)
              (map (\<lambda>r. ElementNode (projr r)) (take n ?rs))\<rparr>)"
    using generate_eq [OF assms(1), of this] n(4,5) by (simp add: comp_def)
  with n(1,2) rn k' show ?thesis by blast
qed

lemma mainLines_of_all:
  assumes "\<forall>l \<in> set lines. level l = 0"
  shows "mainLines_of lines = map (\<lambda>i. (lines ! i, i)) [0..<length lines]"
proof -
  have "filter (\<lambda>i. level (lines ! i) = 0) [0..<length lines] = [0..<length lines]"
    using assms by (simp add: filter_id_conv)
  then show ?thesis by (simp add: mainLines_of_def)
qed

lemma blocks_upt:
  "blocks n (map (\<lambda>i. (lines ! i, i)) [i..<n]) = map (\<lambda>i. (lines ! i, i, Suc i)) [i..<n]"
proof (induction "n - i" arbitrary: i)
  case 0
  then show ?case by simp
next
  case (Suc d)
  then have lt: "i < n" and d: "d = n - Suc i" by simp_all
  have step: "[i..<n] = i # [Suc i..<n]" using lt by (rule upt_conv_Cons)
  show ?case
  proof (cases "Suc i < n")
    case True
    then have "[Suc i..<n] = Suc i # [Suc (Suc i)..<n]" by (rule upt_conv_Cons)
    with Suc.hyps(1) [OF d] step show ?thesis by simp
  next
    case False
    with lt have "n = Suc i" by simp
    then show ?thesis by simp
  qed
qed

lemma build_block_single:
  "build_block this lines l i (Suc i) = createElementFromLine this l"
  by (cases "createElementFromLine this l") (simp_all add: build_block_def reconstruct.simps)

lemma block_results_all:
  assumes "\<forall>l \<in> set lines. level l = 0"
  shows "block_results this lines (mainLines_of lines) = map (createElementFromLine this) lines"
proof -
  have "block_results this lines (mainLines_of lines)
          = map (\<lambda>i. createElementFromLine this (lines ! i)) [0..<length lines]"
    by (simp add: block_results_def mainLines_of_all [OF assms] blocks_upt build_block_single)
  also have "\<dots> = map (createElementFromLine this) (map ((!) lines) [0..<length lines])"
    by simp
  also have "\<dots> = map (createElementFromLine this) lines"
    by (simp only: map_nth)
  finally show ?thesis .
qed

lemma create_children_shift:
  assumes "j \<le> length lines"
  shows "create_children this lines (map (\<lambda>k. k + j) ks) acc
           = create_children this (drop j lines) ks acc"
proof (induction ks arbitrary: acc)
  case Nil
  show ?case by simp
next
  case (Cons k ks)
  have "drop j lines ! k = lines ! (k + j)"
    using assms by (simp add: add.commute)
  with Cons.IH show ?case by (simp cong: sum.case_cong)
qed

lemma map_add_upt_from: "map (\<lambda>k. k + j) [a..<b] = [a + j..<b + j]"
  by (induction b) simp_all

lemma build_block_shift:
  assumes "j \<le> length lines"
  shows "build_block this lines l (i + j) (nxt + j) = build_block this (drop j lines) l i nxt"
proof -
  have "[i + j + 1..<nxt + j] = map (\<lambda>k. k + j) [i + 1..<nxt]"
    by (simp add: map_add_upt_from)
  then have "create_children this lines [i + j + 1..<nxt + j] []
               = create_children this (drop j lines) [i + 1..<nxt] []"
    using create_children_shift [OF assms] by simp
  then show ?thesis by (simp add: build_block_def cong: sum.case_cong)
qed

lemma blocks_shift:
  "blocks (n + j) (map (\<lambda>(l, i). (l, i + j)) mls)
     = map (\<lambda>(l, i, nxt). (l, i + j, nxt + j)) (blocks n mls)"
proof (induction mls)
  case Nil
  show ?case by simp
next
  case (Cons ml mls)
  obtain l i where ml: "ml = (l, i)" by (cases ml)
  show ?case
  proof (cases mls)
    case Nil
    then show ?thesis by (simp add: ml)
  next
    case (Cons ml' mls')
    obtain l' i' where "ml' = (l', i')" by (cases ml')
    with Cons Cons.IH show ?thesis by (simp add: ml)
  qed
qed

lemma mainLines_of_shift:
  assumes "j \<le> length lines" "\<forall>i<j. level (lines ! i) \<noteq> 0"
  shows "mainLines_of lines = map (\<lambda>(l, i). (l, i + j)) (mainLines_of (drop j lines))"
proof -
  let ?P = "\<lambda>i. level (lines ! i) = 0"
  let ?n = "length lines"
  have split: "[0..<?n] = [0..<j] @ [j..<?n]"
    using assms(1) upt_add_eq_append [of 0 j "?n - j"] by simp
  have "filter ?P [0..<j] = []" using assms(2) by (simp add: filter_empty_conv)
  moreover have "[j..<?n] = map (\<lambda>k. k + j) [0..<?n - j]"
    using assms(1) by (simp add: map_add_upt_from)
  ultimately have "filter ?P [0..<?n] = filter ?P (map (\<lambda>k. k + j) [0..<?n - j])"
    using split by simp
  also have "\<dots> = map (\<lambda>k. k + j) (filter (\<lambda>k. level (drop j lines ! k) = 0) [0..<?n - j])"
    using assms(1) by (simp add: filter_map comp_def add.commute)
  finally have f: "filter ?P [0..<?n]
      = map (\<lambda>k. k + j) (filter (\<lambda>k. level (drop j lines ! k) = 0) [0..<?n - j])" .
  show ?thesis
    unfolding mainLines_of_def f using assms(1) by (simp add: comp_def add.commute)
qed

lemma block_results_shift:
  assumes "j \<le> length lines" "\<forall>i<j. level (lines ! i) \<noteq> 0"
  shows "block_results this lines (mainLines_of lines)
           = block_results this (drop j lines) (mainLines_of (drop j lines))"
proof -
  have len: "length lines = length (drop j lines) + j" using assms(1) by simp
  have "blocks (length lines) (mainLines_of lines)
          = map (\<lambda>(l, i, nxt). (l, i + j, nxt + j))
              (blocks (length (drop j lines)) (mainLines_of (drop j lines)))"
    unfolding mainLines_of_shift [OF assms] by (subst len) (rule blocks_shift)
  then show ?thesis
    by (simp add: block_results_def comp_def case_prod_beta build_block_shift [OF assms(1)])
qed

lemma generate_blocks_skip:
  "generate_blocks this lines (mainLines_of lines)
     = generate_blocks this (dropWhile (\<lambda>l. level l \<noteq> 0) lines)
         (mainLines_of (dropWhile (\<lambda>l. level l \<noteq> 0) lines))"
proof -
  let ?P = "\<lambda>l. level l \<noteq> 0"
  let ?j = "length (takeWhile ?P lines)"
  have j: "?j \<le> length lines" by (rule length_takeWhile_le)
  have before: "\<forall>i<?j. level (lines ! i) \<noteq> 0"
  proof (intro allI impI)
    fix i assume i: "i < ?j"
    then have "takeWhile ?P lines ! i \<in> set (takeWhile ?P lines)" by (rule nth_mem)
    then have "?P (takeWhile ?P lines ! i)" by (blast dest: set_takeWhileD)
    with takeWhile_nth [OF i] show "level (lines ! i) \<noteq> 0" by simp
  qed
  have dw: "dropWhile ?P lines = drop ?j lines" by (rule dropWhile_eq_drop)
  show ?thesis
    unfolding dw generate_blocks_eq block_results_shift [OF j before] ..
qed

lemma mainLines_of_none:
  assumes "\<forall>l \<in> set lines. level l \<noteq> 0"
  shows "mainLines_of lines = []"
  using assms by (simp add: mainLines_of_def filter_empty_conv)

subsection \<open>Facts about trimming and splitting\<close>

lemma split_from_sep_nonempty: "split_from sep cur s \<noteq> []"
  by (induction sep cur s rule: split_from.induct) auto

lemma split_from_char:
  "split_from [c] cur (x # xs)
     = (if x = c then cur # split_from [c] [] xs else split_from [c] (cur @ [x]) xs)"
  by simp

lemma length_split_from_char: "length (split_from [c] cur s) = Suc (count_list s c)"
  by (induction s arbitrary: cur) simp_all

lemma concat_split_from_char:
  "concat (map (\<lambda>l. l @ [c]) (split_from [c] cur s)) = cur @ s @ [c]"
  by (induction s arbitrary: cur) auto

lemma split_from_char_free:
  "c \<notin> set cur \<Longrightarrow> l \<in> set (split_from [c] cur s) \<Longrightarrow> c \<notin> set l"
proof (induction s arbitrary: cur)
  case Nil
  then show ?case by simp
next
  case (Cons x xs)
  show ?case
  proof (cases "x = c")
    case True
    with Cons.prems have "l = cur \<or> l \<in> set (split_from [c] [] xs)" by simp
    with Cons.prems(1) Cons.IH [of "[]"] show ?thesis by auto
  next
    case False
    with Cons.prems have "c \<notin> set (cur @ [x])" "l \<in> set (split_from [c] (cur @ [x]) xs)"
      by simp_all
    then show ?thesis by (rule Cons.IH)
  qed
qed

lemma hd_split_from_char: "hd (split_from [c] cur s) = cur @ takeWhile (\<lambda>x. x \<noteq> c) s"
  by (induction s arbitrary: cur) simp_all

lemma takeWhile_snoc_char:
  "takeWhile (\<lambda>x. x \<noteq> c) (ys @ [y])
     = (if c \<in> set ys then takeWhile (\<lambda>x. x \<noteq> c) ys else if y = c then ys else ys @ [y])"
  by (induction ys) auto

lemma last_split_from_char:
  "last (split_from [c] cur s)
     = (if c \<in> set s then rev (takeWhile (\<lambda>x. x \<noteq> c) (rev s)) else cur @ s)"
proof (induction s arbitrary: cur)
  case Nil
  show ?case by simp
next
  case (Cons x xs)
  have ne: "\<And>cur. split_from [c] cur xs \<noteq> []" by (rule split_from_sep_nonempty)
  show ?case
  proof (cases "x = c")
    case True
    with Cons.IH [of "[]"] ne show ?thesis
      by (simp add: takeWhile_snoc_char)
  next
    case False
    with Cons.IH [of "cur @ [x]"] show ?thesis
      by (simp add: takeWhile_snoc_char)
  qed
qed

lemma set_trim: "set (trim s) \<subseteq> set s"
  by (auto simp: trim_def dest!: set_dropWhileD)

lemma trim_ends:
  "trim s = [] \<or> (\<not> is_space (hd (trim s)) \<and> \<not> is_space (last (trim s)))"
proof (cases "trim s = []")
  case True
  then show ?thesis by simp
next
  case False
  let ?a = "dropWhile is_space s"
  let ?b = "dropWhile is_space (rev ?a)"
  from False have b: "?b \<noteq> []" by (simp add: trim_def)
  then have "\<not> is_space (hd ?b)" by (rule hd_dropWhile)
  then have l: "\<not> is_space (last (trim s))" using b by (simp add: trim_def last_rev)
  from b have a: "?a \<noteq> []" by (metis dropWhile.simps(1) rev.simps(1))
  then have ha: "\<not> is_space (hd ?a)" by (rule hd_dropWhile)
  have "hd (rev ?b) = hd ?a"
  proof -
    from a ha have "\<not> is_space (last (rev ?a))" by (simp add: last_rev)
    moreover have "rev ?a = takeWhile is_space (rev ?a) @ ?b"
      by simp
    ultimately have "last ?b = last (rev ?a)" using b
      by (metis last_appendR)
    then show ?thesis using a b by (simp add: hd_rev last_rev)
  qed
  with ha have "\<not> is_space (hd (trim s))" by (simp add: trim_def)
  with l show ?thesis by simp
qed

lemma trim_id:
  assumes "s \<noteq> []" "\<not> is_space (hd s)" "\<not> is_space (last s)"
  shows "trim s = s"
proof -
  from assms(1,2) have "dropWhile is_space s = s" by (cases s) simp_all
  moreover from assms(1,3) have "dropWhile is_space (rev s) = rev s"
    by (cases "rev s") (simp_all add: last_rev [symmetric] hd_rev)
  ultimately show ?thesis by (simp add: trim_def)
qed

lemma trim_Nil: "trim [] = []"
  by (simp add: trim_def)

lemma trim_trim: "trim (trim s) = trim s"
proof (cases "trim s = []")
  case True
  with trim_Nil show ?thesis by simp
next
  case False
  with trim_ends [of s] show ?thesis by (intro trim_id) simp_all
qed

lemma trim_append_NL: "trim (trim s @ [NL]) = trim s"
proof (cases "trim s = []")
  case True
  have "trim [NL] = []" by (simp add: trim_def is_space_def NL_def)
  with True show ?thesis by simp
next
  case False
  with trim_ends [of s] have e: "\<not> is_space (hd (trim s))" "\<not> is_space (last (trim s))"
    by simp_all
  have sp: "is_space NL" by (simp add: is_space_def NL_def)
  from False e(1) have 1: "dropWhile is_space (trim s @ [NL]) = trim s @ [NL]"
    by (cases "trim s") simp_all
  from False e(2) have 2: "dropWhile is_space (rev (trim s)) = rev (trim s)"
    by (cases "rev (trim s)") (simp_all add: last_rev [symmetric] hd_rev)
  show ?thesis
    unfolding trim_def [of "trim s @ [NL]"] 1 using sp 2 by simp
qed

lemma foldl_append_concat: "foldl (\<lambda>acc x. acc @ f x) a xs = a @ concat (map f xs)"
  by (induction xs arbitrary: a) simp_all

lemma trim_eq_Nil_iff: "trim s = [] \<longleftrightarrow> (\<forall>x \<in> set s. is_space x)"
proof
  assume "trim s = []"
  then have b: "dropWhile is_space (rev (dropWhile is_space s)) = []" by (simp add: trim_def)
  show "\<forall>x \<in> set s. is_space x"
  proof (rule ccontr)
    assume "\<not> (\<forall>x \<in> set s. is_space x)"
    then have a: "dropWhile is_space s \<noteq> []" by (simp add: dropWhile_eq_Nil_conv)
    then have "\<not> is_space (hd (dropWhile is_space s))" by (rule hd_dropWhile)
    moreover from a have "hd (dropWhile is_space s) \<in> set (rev (dropWhile is_space s))" by simp
    ultimately have "dropWhile is_space (rev (dropWhile is_space s)) \<noteq> []"
      unfolding dropWhile_eq_Nil_conv by blast
    with b show False by simp
  qed
next
  assume "\<forall>x \<in> set s. is_space x"
  then have d: "dropWhile is_space s = []" by (simp add: dropWhile_eq_Nil_conv)
  show "trim s = []" unfolding trim_def d by simp
qed

lemma is_space_NL: "is_space NL"
  by (simp add: is_space_def NL_def)

lemma extractLinesFrom_ends:
  assumes "trim t \<noteq> []"
  shows "hd (extractLinesFrom t) \<noteq> [] \<and> last (extractLinesFrom t) \<noteq> []"
proof -
  let ?u = "trim t"
  let ?ls = "split_from [NL] [] ?u"
  have ne: "?ls \<noteq> []" by (rule split_from_sep_nonempty)
  from trim_ends [of t] assms
  have h: "\<not> is_space (hd ?u)" and l: "\<not> is_space (last ?u)" by simp_all
  with is_space_NL have hn: "hd ?u \<noteq> NL" and ln: "last ?u \<noteq> NL" by auto
  have "hd ?u \<in> set (hd ?ls)"
    using assms hn by (cases ?u) (simp_all add: hd_split_from_char)
  with h have 1: "trim (hd ?ls) \<noteq> []" unfolding trim_eq_Nil_iff by blast
  have "last ?u \<in> set (last ?ls)"
  proof (cases "NL \<in> set ?u")
    case True
    from assms ln have "takeWhile (\<lambda>x. x \<noteq> NL) (rev ?u) \<noteq> []"
      by (cases "rev ?u") (simp_all add: last_rev [symmetric] hd_rev)
    moreover have "hd (takeWhile (\<lambda>x. x \<noteq> NL) (rev ?u)) = last ?u"
      using assms ln by (cases "rev ?u") (simp_all add: last_rev [symmetric] hd_rev)
    ultimately have "last ?u \<in> set (takeWhile (\<lambda>x. x \<noteq> NL) (rev ?u))"
      by (metis hd_in_set)
    with True show ?thesis by (simp add: last_split_from_char)
  next
    case False
    with assms show ?thesis by (simp add: last_split_from_char)
  qed
  with l have 2: "trim (last ?ls) \<noteq> []" unfolding trim_eq_Nil_iff by blast
  from 1 2 ne show ?thesis
    by (simp add: extractLinesFrom_def split_str_def hd_map last_map)
qed

lemma extractLinesFrom_lines:
  assumes "l \<in> set (extractLinesFrom t)"
  shows "trim l = l \<and> NL \<notin> set l"
proof -
  from assms obtain l' where l': "l' \<in> set (split_from [NL] [] (trim t))" "l = trim l'"
    by (auto simp: extractLinesFrom_def split_str_def)
  from split_from_char_free [OF _ l'(1)] have "NL \<notin> set l'" by simp
  with set_trim [of l'] l'(2) have "NL \<notin> set l" by blast
  with l'(2) show ?thesis by (simp add: trim_trim)
qed

lemma split_from_char_append:
  "split_from [c] cur (a @ c # rest) = split_from [c] cur a @ split_from [c] [] rest"
  by (induction a arbitrary: cur) auto

lemma split_from_char_single: "c \<notin> set w \<Longrightarrow> split_from [c] cur w = [cur @ w]"
  by (induction w arbitrary: cur) auto

lemma set_split_from_char:
  "l \<in> set (split_from [c] cur s) \<Longrightarrow> set l \<subseteq> set cur \<union> set s"
proof (induction s arbitrary: cur)
  case Nil
  then show ?case by simp
next
  case (Cons x xs)
  show ?case
  proof (cases "x = c")
    case True
    with Cons.prems have "l = cur \<or> l \<in> set (split_from [c] [] xs)" by simp
    with Cons.IH [of "[]"] show ?thesis by auto
  next
    case False
    with Cons.prems have "l \<in> set (split_from [c] (cur @ [x]) xs)" by simp
    from Cons.IH [OF this] show ?thesis by auto
  qed
qed

lemma split_line_between:
  assumes "NL \<notin> set w"
  shows "Suc (count_list a NL) < length (split_str (a @ [NL] @ w @ [NL] @ b) [NL])
       \<and> split_str (a @ [NL] @ w @ [NL] @ b) [NL] ! Suc (count_list a NL) = w"
proof -
  have "split_from [NL] [] (a @ [NL] @ w @ [NL] @ b)
          = split_from [NL] [] a @ split_from [NL] [] (w @ NL # b)"
    using split_from_char_append [of NL "[]" a "w @ [NL] @ b"] by simp
  also have "split_from [NL] [] (w @ NL # b) = split_from [NL] [] w @ split_from [NL] [] b"
    by (rule split_from_char_append)
  also have "split_from [NL] [] w = [w]"
    using split_from_char_single [OF assms, of "[]"] by simp
  finally have eq: "split_str (a @ [NL] @ w @ [NL] @ b) [NL]
          = split_from [NL] [] a @ w # split_from [NL] [] b"
    by (simp add: split_str_def)
  have len: "length (split_from [NL] [] a) = Suc (count_list a NL)"
    by (rule length_split_from_char)
  show ?thesis
    unfolding eq using len by (simp add: nth_append)
qed

text \<open>
  Cutting a text at a character gives the pieces between its occurrences: pieces without
  the character which, each followed by the character, make up the text followed by the
  character. There is one such list of pieces only.
\<close>

lemma pieces_unique:
  assumes "\<forall>p \<in> set ps. c \<notin> set p" "\<forall>q \<in> set qs. c \<notin> set q"
    "concat (map (\<lambda>p. p @ [c]) ps) = concat (map (\<lambda>p. p @ [c]) qs)"
  shows "ps = qs"
  using assms
proof (induction ps arbitrary: qs)
  case Nil
  then show ?case by (cases qs) simp_all
next
  case (Cons p ps)
  show ?case
  proof (cases qs)
    case Nil
    with Cons.prems(3) show ?thesis by simp
  next
    case (Cons q qs')
    let ?r = "concat (map (\<lambda>p. p @ [c]) ps)"
    let ?r' = "concat (map (\<lambda>p. p @ [c]) qs')"
    from Cons.prems(3) Cons have eq: "p @ c # ?r = q @ c # ?r'" by simp
    from Cons.prems(1) have cp: "c \<notin> set p" by simp
    from Cons.prems(2) Cons have cq: "c \<notin> set q" by simp
    have "takeWhile (\<lambda>x. x \<noteq> c) (p @ c # ?r) = p" using cp by (auto simp: takeWhile_tail)
    moreover have "takeWhile (\<lambda>x. x \<noteq> c) (q @ c # ?r') = q" using cq by (auto simp: takeWhile_tail)
    ultimately have pq: "p = q" using eq by simp
    with eq have "?r = ?r'" by simp
    with Cons.IH [of qs'] Cons.prems(1,2) Cons have "ps = qs'" by simp
    with pq Cons show ?thesis by simp
  qed
qed

lemma extractLinesFrom_pieces:
  "\<exists>ps. (\<forall>p \<in> set ps. NL \<notin> set p)
      \<and> concat (map (\<lambda>p. p @ [NL]) ps) = trim t @ [NL]
      \<and> extractLinesFrom t = map trim ps"
proof -
  let ?ps = "split_from [NL] [] (trim t)"
  have "\<forall>p \<in> set ?ps. NL \<notin> set p"
    using split_from_char_free [of NL "[]" _ "trim t"] by auto
  moreover have "concat (map (\<lambda>p. p @ [NL]) ?ps) = trim t @ [NL]"
    using concat_split_from_char [of NL "[]" "trim t"] by simp
  moreover have "extractLinesFrom t = map trim ?ps"
    by (simp add: extractLinesFrom_def split_str_def)
  ultimately show ?thesis by blast
qed

lemma extractLinesFrom_blank:
  assumes "trim t = a @ [NL] @ w @ [NL] @ b" "\<forall>c \<in> set w. is_space c" "NL \<notin> set w"
  shows "Suc (count_list a NL) < length (extractLinesFrom t)
       \<and> extractLinesFrom t ! Suc (count_list a NL) = []"
proof -
  from split_line_between [OF assms(3), of a b]
  have 1: "Suc (count_list a NL) < length (split_str (trim t) [NL])"
    and 2: "split_str (trim t) [NL] ! Suc (count_list a NL) = w"
    unfolding assms(1) by simp_all
  from assms(2) have "trim w = []" by (simp add: trim_eq_Nil_iff)
  with 1 2 show ?thesis by (simp add: extractLinesFrom_def)
qed

lemma trim_inner:
  assumes "trim a \<noteq> []" "trim b \<noteq> []"
  shows "trim (a @ m @ b) = dropWhile is_space a @ m @ rev (dropWhile is_space (rev b))"
proof -
  from assms obtain x y where x: "x \<in> set a" "\<not> is_space x" and y: "y \<in> set b" "\<not> is_space y"
    unfolding trim_eq_Nil_iff by blast
  have 1: "dropWhile is_space (a @ m @ b) = dropWhile is_space a @ m @ b"
    using x by (rule dropWhile_append1)
  from y have y': "y \<in> set (rev b)" by simp
  have "dropWhile is_space (rev b @ rev m @ rev (dropWhile is_space a))
          = dropWhile is_space (rev b) @ rev m @ rev (dropWhile is_space a)"
    using y' y(2) by (rule dropWhile_append1)
  then show ?thesis by (simp add: trim_def 1)
qed

lemma extractLinesFrom_blank_line:
  assumes "t = a @ [NL] @ w @ [NL] @ b" "trim a \<noteq> []" "trim b \<noteq> []"
    "\<forall>c \<in> set w. is_space c" "NL \<notin> set w"
  shows "Suc (count_list (dropWhile is_space a) NL) < length (extractLinesFrom t)
       \<and> extractLinesFrom t ! Suc (count_list (dropWhile is_space a) NL) = []"
proof -
  have "trim t = dropWhile is_space a @ [NL] @ w @ [NL] @ rev (dropWhile is_space (rev b))"
    unfolding assms(1) using trim_inner [OF assms(2,3), of "[NL] @ w @ [NL]"] by simp
  from extractLinesFrom_blank [OF this assms(4,5)] show ?thesis .
qed

subsection \<open>Which lines the host accepts\<close>

text \<open>
  The name and the value an attribute item stands for, in the words of the amended
  claim: the item is trimmed; the name is the text before the first \<^verbatim>\<open>=\<close>, the value
  the text between the first \<^verbatim>\<open>=\<close> and the next one (or the end); an item without
  \<^verbatim>\<open>=\<close> is all name and has the empty value.
\<close>

definition attribute_of :: "string \<Rightarrow> string \<times> string" where
  "attribute_of item =
     (let attr = trim item
      in (takeWhile (\<lambda>c. c \<noteq> CHR ''='') attr,
          takeWhile (\<lambda>c. c \<noteq> CHR ''='') (drop 1 (dropWhile (\<lambda>c. c \<noteq> CHR ''='') attr))))"

lemma split_from_char_unfold:
  "split_from [c] cur s
     = (cur @ takeWhile (\<lambda>x. x \<noteq> c) s)
       # (case dropWhile (\<lambda>x. x \<noteq> c) s of [] \<Rightarrow> [] | x # rest \<Rightarrow> split_from [c] [] rest)"
  by (induction s arbitrary: cur) simp_all

lemma split_str_char_nth0: "split_str s [c] ! 0 = takeWhile (\<lambda>x. x \<noteq> c) s"
  by (subst split_str_def, simp, subst split_from_char_unfold, simp)

lemma split_str_char_nth1:
  assumes "c \<in> set s"
  shows "split_str s [c] ! 1 = takeWhile (\<lambda>x. x \<noteq> c) (drop 1 (dropWhile (\<lambda>x. x \<noteq> c) s))"
proof -
  from assms have "dropWhile (\<lambda>x. x \<noteq> c) s \<noteq> []" by (simp add: dropWhile_eq_Nil_conv)
  then obtain x rest where d: "dropWhile (\<lambda>x. x \<noteq> c) s = x # rest"
    by (cases "dropWhile (\<lambda>x. x \<noteq> c) s") auto
  have "split_str s [c] ! 1 = split_from [c] [] rest ! 0"
    by (subst split_str_def, simp, subst split_from_char_unfold, simp add: d)
  also have "\<dots> = takeWhile (\<lambda>x. x \<noteq> c) rest"
    by (subst split_from_char_unfold) simp
  finally show ?thesis by (simp add: d)
qed

lemma add_attribute_eq:
  "add_attribute element item =
     (if starts_with_digit item then Inr element
      else setAttribute element (fst (attribute_of item)) (snd (attribute_of item)))"
proof (cases "CHR ''='' \<in> set (trim item)")
  case True
  then show ?thesis
    by (simp add: add_attribute_def attribute_of_def Let_def split_str_char_nth0
        split_str_char_nth1 [OF True] del: One_nat_def)
next
  case False
  then have tw: "takeWhile (\<lambda>c. c \<noteq> CHR ''='') (trim item) = trim item"
    and dw: "dropWhile (\<lambda>c. c \<noteq> CHR ''='') (trim item) = []"
    by (auto simp: takeWhile_eq_all_conv dropWhile_eq_Nil_conv)
  show ?thesis
    using False unfolding add_attribute_def attribute_of_def Let_def tw dw by simp
qed



text \<open>
  A line is accepted when it yields a tag, the host takes the tag as a name, and the
  host takes as a name the name of every attribute item the line sets.
\<close>

definition line_accepted :: "HTMLBuilder \<Rightarrow> string \<Rightarrow> bool" where
  "line_accepted this line =
     (case REGEX_exec line of
        None \<Rightarrow> False
      | Some m \<Rightarrow>
          valid_name (the (g1 m))
          \<and> (case or_null (g5 m) of
               None \<Rightarrow> True
             | Some s \<Rightarrow>
                 list_all (\<lambda>item. starts_with_digit item \<or> valid_name (fst (attribute_of item)))
                   (split_str s (SYMBOL_BETWEEN_ATTRIBUTES this))))"

lemma set_class_run: "c \<in> set (class_run s) \<Longrightarrow> c = CHR ''.'' \<or> is_word_dash c"
proof (induction s rule: class_run.induct)
  case 1
  then show ?case by simp
next
  case (2 x xs)
  then show ?case by (auto split: if_splits dest: set_takeWhileD)
qed

lemma is_word_dash_not_whitespace: "is_word_dash c \<Longrightarrow> \<not> is_ascii_whitespace c"
  by (auto simp: is_word_dash_def is_word_def is_ascii_whitespace_def)

lemma REGEX_exec_g2:
  assumes "REGEX_exec line = Some m" "g2 m = Some s" "c \<in> set s"
  shows "c = CHR ''.'' \<or> is_word_dash c"
proof -
  from assms(1,2) obtain r where "s = class_run r"
    unfolding REGEX_exec_def Let_def by (auto split: prod.splits if_splits)
  with assms(3) show ?thesis by (simp add: set_class_run)
qed

lemma class_tokens_fine:
  assumes "REGEX_exec line = Some m" "or_null (g2 m) = Some s"
    and "p \<in> set (filter (\<lambda>v. v \<noteq> []) (split_str s ''.''))"
  shows "p \<noteq> [] \<and> \<not> list_ex is_ascii_whitespace p"
proof -
  from assms(2) have g2: "g2 m = Some s" by (auto simp: or_null_def split: option.splits if_splits)
  from assms(3) have ne: "p \<noteq> []" and p: "p \<in> set (split_from ''.'' [] s)"
    by (simp_all add: split_str_def)
  have "\<not> is_ascii_whitespace c" if "c \<in> set p" for c
  proof -
    from set_split_from_char [OF p] that have "c \<in> set s" by auto
    moreover from split_from_char_free [OF _ p] that have "c \<noteq> CHR ''.''" by auto
    ultimately have "is_word_dash c" using REGEX_exec_g2 [OF assms(1) g2] by blast
    then show ?thesis by (rule is_word_dash_not_whitespace)
  qed
  with ne show ?thesis by (auto simp: list_ex_iff)
qed

lemma add_class_Inr:
  assumes "c \<noteq> []" "\<not> list_ex is_ascii_whitespace c"
  shows "\<exists>e'. add_class e c = Inr e'"
  using assms by (simp add: add_class_def classList_add_def)

lemma for_each_Inr:
  assumes "\<And>a x. x \<in> set xs \<Longrightarrow> \<exists>a'. f a x = Inr a'"
  shows "\<exists>b. for_each f a xs = Inr b"
  using assms
proof (induction xs arbitrary: a)
  case Nil
  show ?case by simp
next
  case (Cons x xs)
  from Cons.prems [of x a] obtain a' where a': "f a x = Inr a'" by auto
  from Cons.IH [of a'] Cons.prems obtain b where "for_each f a' xs = Inr b" by auto
  with a' show ?case by simp
qed

lemma create_with_classes_line:
  assumes "REGEX_exec line = Some m"
  shows "create_with_classes (the (g1 m))
           (map_option (\<lambda>s. filter (\<lambda>v. v \<noteq> []) (split_str s ''.'')) (or_null (g2 m)))
         = Inl InvalidCharacterError \<and> \<not> valid_name (the (g1 m))
       \<or> (\<exists>e. create_with_classes (the (g1 m))
           (map_option (\<lambda>s. filter (\<lambda>v. v \<noteq> []) (split_str s ''.'')) (or_null (g2 m)))
         = Inr e) \<and> valid_name (the (g1 m))"
proof (cases "valid_name (the (g1 m))")
  case False
  then show ?thesis by (simp add: create_with_classes_def createElement_def)
next
  case True
  let ?e = "Element (map to_lower (the (g1 m))) [] [] []"
  show ?thesis
  proof (cases "or_null (g2 m)")
    case None
    with True show ?thesis by (simp add: create_with_classes_def createElement_def)
  next
    case (Some s)
    have "\<exists>b. for_each add_class ?e (filter (\<lambda>v. v \<noteq> []) (split_str s ''.'')) = Inr b"
    proof (rule for_each_Inr)
      fix a x
      assume "x \<in> set (filter (\<lambda>v. v \<noteq> []) (split_str s ''.''))"
      from class_tokens_fine [OF assms Some this] show "\<exists>a'. add_class a x = Inr a'"
        using add_class_Inr by blast
    qed
    with True Some show ?thesis by (simp add: create_with_classes_def createElement_def)
  qed
qed

lemma for_each_add_attribute_Inr_iff:
  "(\<exists>b. for_each add_attribute e items = Inr b)
     \<longleftrightarrow> list_all (\<lambda>item. starts_with_digit item \<or> valid_name (fst (attribute_of item))) items"
proof (induction items arbitrary: e)
  case Nil
  show ?case by simp
next
  case (Cons item items)
  show ?case
  proof (cases "add_attribute e item")
    case (Inl err)
    then have "\<not> (starts_with_digit item \<or> valid_name (fst (attribute_of item)))"
      by (auto simp: add_attribute_eq [of e item] setAttribute_def split: if_splits)
    with Inl show ?thesis by simp
  next
    case (Inr e')
    then have "starts_with_digit item \<or> valid_name (fst (attribute_of item))"
      by (auto simp: add_attribute_eq [of e item] setAttribute_def split: if_splits)
    with Inr Cons.IH [of e'] show ?thesis by simp
  qed
qed

lemma line_accepted_iff:
  "\<not> isl (createElementFromLine this line) \<longleftrightarrow> line_accepted this line"
proof (cases "REGEX_exec line")
  case None
  then show ?thesis
    by (simp add: createElementFromLine_None line_accepted_def)
next
  case (Some m)
  let ?classes = "map_option (\<lambda>s. filter (\<lambda>v. v \<noteq> []) (split_str s ''.'')) (or_null (g2 m))"
  from create_with_classes_line [OF Some]
  consider "create_with_classes (the (g1 m)) ?classes = Inl InvalidCharacterError"
      "\<not> valid_name (the (g1 m))"
    | e where "create_with_classes (the (g1 m)) ?classes = Inr e" "valid_name (the (g1 m))"
    by blast
  then show ?thesis
  proof cases
    case 1
    then show ?thesis
      by (simp add: createElementFromLine_Some [OF Some] materialize_def line_accepted_def Some)
  next
    case 2
    show ?thesis
    proof (cases "or_null (g5 m)")
      case None
      with 2 show ?thesis
        by (simp add: createElementFromLine_Some [OF Some] materialize_def line_accepted_def Some)
    next
      case s: (Some s)
      let ?items = "split_str s (SYMBOL_BETWEEN_ATTRIBUTES this)"
      show ?thesis
      proof (cases "for_each add_attribute e ?items")
        case (Inl err)
        with for_each_add_attribute_Inr_iff [of e ?items]
        have "\<not> list_all (\<lambda>item. starts_with_digit item \<or> valid_name (fst (attribute_of item))) ?items"
          by auto
        with Inl 2 s show ?thesis
          by (simp add: createElementFromLine_Some [OF Some] materialize_def line_accepted_def Some)
      next
        case (Inr e')
        with for_each_add_attribute_Inr_iff [of e ?items]
        have "list_all (\<lambda>item. starts_with_digit item \<or> valid_name (fst (attribute_of item))) ?items"
          by auto
        with Inr 2 s show ?thesis
          by (simp add: createElementFromLine_Some [OF Some] materialize_def line_accepted_def Some)
      qed
    qed
  qed
qed

lemma createElementFromLine_Inl_cases:
  assumes "createElementFromLine this line = Inl e"
  shows "(REGEX_exec line = None \<and> e = unable_to_parse line)
       \<or> (REGEX_exec line \<noteq> None \<and> \<not> line_accepted this line \<and> e = InvalidCharacterError)"
proof (cases "REGEX_exec line")
  case None
  with assms createElementFromLine_None [OF None, of this] show ?thesis by simp
next
  case (Some m)
  let ?classes = "map_option (\<lambda>s. filter (\<lambda>v. v \<noteq> []) (split_str s ''.'')) (or_null (g2 m))"
  from assms have na: "\<not> line_accepted this line"
    using line_accepted_iff [of this line] by simp
  have "e = InvalidCharacterError"
  proof (cases "create_with_classes (the (g1 m)) ?classes")
    case (Inl e')
    with create_with_classes_line [OF Some] have "e' = InvalidCharacterError" by auto
    with Inl assms show ?thesis
      by (simp add: createElementFromLine_Some [OF Some] materialize_def)
  next
    case (Inr element)
    with assms obtain as where "for_each add_attribute element as = Inl e"
      by (auto simp: createElementFromLine_Some [OF Some] materialize_def
          split: option.splits sum.splits)
    then show ?thesis by (rule for_each_Inl) (rule add_attribute_Inl)
  qed
  with Some na show ?thesis by simp
qed

subsection \<open>Child nodes, attributes and listeners of a line\<close>

lemma set_attribute_value_fields [simp]:
  "localName (set_attribute_value e k v) = localName e"
  "attributes (set_attribute_value e k v) = AList.update k v (attributes e)"
  "listeners (set_attribute_value e k v) = listeners e"
  "childNodes (set_attribute_value e k v) = childNodes e"
  by (cases e, simp)+

lemma appendChild_fields [simp]:
  "localName (appendChild e n) = localName e"
  "attributes (appendChild e n) = attributes e"
  "listeners (appendChild e n) = listeners e"
  by (cases e, simp)+

lemma add_class_fields:
  assumes "add_class e c = Inr e'"
  shows "localName e' = localName e \<and> listeners e' = listeners e \<and> childNodes e' = childNodes e"
  using assms by (auto simp: add_class_def classList_add_def split: if_splits)

lemma add_attribute_fields:
  assumes "add_attribute e a = Inr e'"
  shows "localName e' = localName e \<and> listeners e' = listeners e \<and> childNodes e' = childNodes e"
  using assms by (auto simp: add_attribute_eq [of e a] setAttribute_def split: if_splits)

lemma create_with_classes_fields:
  assumes "create_with_classes tag classes = Inr e"
  shows "localName e = map to_lower tag \<and> listeners e = [] \<and> childNodes e = []"
proof -
  let ?e0 = "Element (map to_lower tag) [] [] []"
  let ?g = "\<lambda>x. (localName x, listeners x, childNodes x)"
  have inv: "?g b = ?g ?e0" if "for_each add_class ?e0 cs = Inr b" for cs b
    using that by (rule for_each_invariant) (use add_class_fields in auto)
  from assms show ?thesis
    by (auto simp: create_with_classes_def createElement_def
        split: if_splits option.splits dest: inv)
qed

lemma for_each_add_attribute_fields:
  assumes "for_each add_attribute e items = Inr e'"
  shows "localName e' = localName e \<and> listeners e' = listeners e \<and> childNodes e' = childNodes e"
proof -
  let ?g = "\<lambda>x. (localName x, listeners x, childNodes x)"
  have "?g e' = ?g e"
    using assms by (rule for_each_invariant) (use add_attribute_fields in auto)
  then show ?thesis by simp
qed

text \<open>
  The listener the host stores for a registered event, and the list of listeners after
  one more call of \<^verbatim>\<open>addEventListener\<close>.
\<close>

definition listener_of :: "Listener \<Rightarrow> string \<times> nat \<times> bool" where
  "listener_of event =
     (type event, callback event, (case options event of None \<Rightarrow> False | Some b \<Rightarrow> b))"

definition add_listener ::
  "(string \<times> nat \<times> bool) list \<Rightarrow> string \<times> nat \<times> bool \<Rightarrow> (string \<times> nat \<times> bool) list" where
  "add_listener l x = (if x \<in> set l then l else l @ [x])"

text \<open>
  The listeners a list of event names stands for: every name that does not start with a
  digit and is registered gives the listener of its first registration; a listener is
  stored once.
\<close>

definition resolved_listeners :: "HTMLBuilder \<Rightarrow> string list \<Rightarrow> (string \<times> nat \<times> bool) list" where
  "resolved_listeners this ns =
     foldl add_listener []
       (map listener_of
          (List.map_filter (searchForEvent this) (filter (\<lambda>n. \<not> starts_with_digit n) ns)))"

lemma searchForEvent_None_iff:
  "searchForEvent this n = None \<longleftrightarrow> n \<notin> set (map name (EVENTS this))"
  by (auto simp: searchForEvent_def find_None_iff)

lemma add_event_fields [simp]:
  "localName (add_event this e n) = localName e"
  "attributes (add_event this e n) = attributes e"
  "childNodes (add_event this e n) = childNodes e"
  by (cases e, simp add: add_event_def Let_def split: option.splits)+

lemma foldl_add_event_fields [simp]:
  "localName (foldl (add_event this) e ns) = localName e"
  "attributes (foldl (add_event this) e ns) = attributes e"
  "childNodes (foldl (add_event this) e ns) = childNodes e"
  by (induction ns arbitrary: e, simp_all)+

lemma listeners_add_event:
  "listeners (add_event this e n)
     = foldl add_listener (listeners e)
         (map listener_of (List.map_filter (searchForEvent this)
            (filter (\<lambda>n. \<not> starts_with_digit n) [n])))"
  by (cases e)
     (simp add: add_event_def Let_def add_listener_def listener_of_def List.map_filter_simps
       split: option.splits)

lemma listeners_foldl_add_event:
  "listeners (foldl (add_event this) e ns)
     = foldl add_listener (listeners e)
         (map listener_of (List.map_filter (searchForEvent this)
            (filter (\<lambda>n. \<not> starts_with_digit n) ns)))"
proof (induction ns arbitrary: e)
  case Nil
  show ?case by (simp add: List.map_filter_simps)
next
  case (Cons n ns)
  have "listeners (foldl (add_event this) e (n # ns))
          = foldl add_listener (listeners (add_event this e n))
              (map listener_of (List.map_filter (searchForEvent this)
                 (filter (\<lambda>n. \<not> starts_with_digit n) ns)))"
    by (simp add: Cons.IH)
  also have "\<dots> = foldl add_listener (listeners e)
         (map listener_of (List.map_filter (searchForEvent this)
            (filter (\<lambda>n. \<not> starts_with_digit n) (n # ns))))"
    unfolding listeners_add_event
    by (simp add: List.map_filter_simps split: option.splits)
  finally show ?case .
qed

lemma add_event_unregistered:
  assumes "searchForEvent this n = None"
  shows "foldl (add_event this) e ns = foldl (add_event this) e (filter (\<lambda>x. x \<noteq> n) ns)"
proof (induction ns arbitrary: e)
  case Nil
  show ?case by simp
next
  case (Cons x ns)
  show ?case
  proof (cases "x = n")
    case True
    with assms have "add_event this e x = e" by (simp add: add_event_def)
    with True Cons.IH show ?thesis by simp
  next
    case False
    with Cons.IH show ?thesis by simp
  qed
qed

lemma resolved_listeners_unregistered:
  assumes "searchForEvent this n = None"
  shows "resolved_listeners this ns = resolved_listeners this (filter (\<lambda>x. x \<noteq> n) ns)"
proof -
  have "List.map_filter (searchForEvent this) (filter (\<lambda>n. \<not> starts_with_digit n) ns)
      = List.map_filter (searchForEvent this)
          (filter (\<lambda>n. \<not> starts_with_digit n) (filter (\<lambda>x. x \<noteq> n) ns))"
    using assms by (induction ns) (simp_all add: List.map_filter_simps split: option.splits)
  then show ?thesis by (simp add: resolved_listeners_def)
qed

lemma finish_element_fields:
  "localName (finish_element this e ident content events) = localName e"
  "attributes (finish_element this e ident content events)
     = (case ident of None \<Rightarrow> attributes e
        | Some i \<Rightarrow> if i = [] then attributes e else AList.update ''id'' i (attributes e))"
  "childNodes (finish_element this e ident content events)
     = childNodes e @ (case content of None \<Rightarrow> [] | Some c \<Rightarrow> [TextNode (decodeHTMLEntities this c)])"
  "listeners (finish_element this e ident content events)
     = (case events of None \<Rightarrow> listeners e
        | Some ns \<Rightarrow> foldl add_listener (listeners e)
            (map listener_of (List.map_filter (searchForEvent this)
               (filter (\<lambda>n. \<not> starts_with_digit n) ns))))"
  by (simp_all add: finish_element_def Let_def set_id_def childNodes_appendChild
      listeners_foldl_add_event split: option.splits)

lemma finish_element_EVENTS:
  "finish_element (this\<lparr>EVENTS := evs\<rparr>) e ident content None
     = finish_element this e ident content None"
  by (simp add: finish_element_def Let_def cong: option.case_cong)

lemma finish_element_events:
  "finish_element this e ident content (Some ns)
     = foldl (add_event this) (finish_element this e ident content None) ns"
  by (simp add: finish_element_def Let_def)

text \<open>The two steps of a materialisation that can raise, and what they leave.\<close>

lemma materialize_Inr:
  assumes "materialize this tag classes attrs ident content events = Inr e"
  shows "\<exists>e1 e2. create_with_classes tag classes = Inr e1
      \<and> (case attrs of None \<Rightarrow> Inr e1 | Some as \<Rightarrow> for_each add_attribute e1 as) = Inr e2
      \<and> e = finish_element this e2 ident content events"
  using assms by (auto simp: materialize_def split: sum.splits)

lemma materialize_fields:
  assumes "materialize this tag classes attrs ident content events = Inr e"
  shows "localName e = map to_lower tag"
    and "childNodes e = (case content of None \<Rightarrow> [] | Some c \<Rightarrow> [TextNode (decodeHTMLEntities this c)])"
    and "listeners e = (case events of None \<Rightarrow> [] | Some ns \<Rightarrow> resolved_listeners this ns)"
proof -
  from materialize_Inr [OF assms] obtain e1 e2
    where e1: "create_with_classes tag classes = Inr e1"
      and e2: "(case attrs of None \<Rightarrow> Inr e1 | Some as \<Rightarrow> for_each add_attribute e1 as) = Inr e2"
      and e: "e = finish_element this e2 ident content events"
    by blast
  from e2 have "localName e2 = localName e1 \<and> listeners e2 = listeners e1
      \<and> childNodes e2 = childNodes e1"
    by (cases attrs) (auto dest: for_each_add_attribute_fields)
  with create_with_classes_fields [OF e1]
  have f: "localName e2 = map to_lower tag" "listeners e2 = []" "childNodes e2 = []"
    by simp_all
  show "localName e = map to_lower tag"
    and "childNodes e = (case content of None \<Rightarrow> [] | Some c \<Rightarrow> [TextNode (decodeHTMLEntities this c)])"
    and "listeners e = (case events of None \<Rightarrow> [] | Some ns \<Rightarrow> resolved_listeners this ns)"
    unfolding e
    by (simp_all add: finish_element_fields f resolved_listeners_def cong: option.case_cong)
qed

lemma childNodes_createElementFromLine:
  assumes "createElementFromLine this line = Inr e"
  shows "\<forall>c \<in> set (childNodes e). \<exists>s. c = TextNode s"
proof (cases "REGEX_exec line")
  case None
  with assms show ?thesis by (simp add: createElementFromLine_None)
next
  case (Some m)
  from assms [unfolded createElementFromLine_Some [OF Some]]
  show ?thesis by (auto simp: materialize_fields(2) split: option.splits)
qed

text \<open>
  A materialisation under another registry, or with other event names, raises the same
  or gives an element that differs in its listeners only.
\<close>

lemma materialize_events:
  "materialize this tag classes attrs ident content (Some ns)
     = (case materialize this tag classes attrs ident content None of
          Inl e \<Rightarrow> Inl e
        | Inr element \<Rightarrow> Inr (foldl (add_event this) element ns))"
  by (simp add: materialize_def finish_element_events split: sum.splits)

lemma materialize_base_EVENTS:
  "materialize (this\<lparr>EVENTS := evs\<rparr>) tag classes attrs ident content None
     = materialize this tag classes attrs ident content None"
  by (simp add: materialize_def finish_element_EVENTS cong: sum.case_cong)

lemma materialize_unregistered:
  assumes "searchForEvent this n = None"
  shows "materialize this tag classes attrs ident content (Some ns)
       = materialize this tag classes attrs ident content (Some (filter (\<lambda>x. x \<noteq> n) ns))"
  unfolding materialize_events
  using add_event_unregistered [OF assms] by (simp cong: sum.case_cong)

lemma materialize_registry:
  assumes "materialize this tag classes attrs ident content (Some ns) = Inr e"
  shows "\<exists>e'. materialize (this\<lparr>EVENTS := evs\<rparr>) tag classes attrs ident content (Some ns) = Inr e'
      \<and> localName e' = localName e \<and> attributes e' = attributes e
      \<and> childNodes e' = childNodes e"
proof -
  from assms obtain b where b: "materialize this tag classes attrs ident content None = Inr b"
    and e: "e = foldl (add_event this) b ns"
    unfolding materialize_events by (auto split: sum.splits)
  have "materialize (this\<lparr>EVENTS := evs\<rparr>) tag classes attrs ident content (Some ns)
          = Inr (foldl (add_event (this\<lparr>EVENTS := evs\<rparr>)) b ns)"
    unfolding materialize_events materialize_base_EVENTS b by simp
  then show ?thesis unfolding e by simp
qed







section \<open>The claims\<close>

text \<open>
  The concrete builder, templates, lines and pending lists on which the statements of
  this section are evaluated. The builder has one registered event, \<^verbatim>\<open>click\<close>, the
  default separator and the identity as entity decoder. \<open>fresh_element tag\<close> is the
  element the host creates for a tag in lower case.
\<close>

definition fresh_element :: "string \<Rightarrow> element" where
  "fresh_element tag = Element tag [] [] []"

definition builder0 :: HTMLBuilder where
  "builder0 =
     \<lparr>parent = fresh_element ''body'', SYMBOL_BETWEEN_ATTRIBUTES = '';'',
      EVENTS = [\<lparr>name = ''click'', type = ''click'', callback = 0, options = None\<rparr>],
      decodeHTMLEntities = (\<lambda>s. s)\<rparr>"

definition nested_template :: string where
  "nested_template = ''div'' @ [NL] @ ''>span(A)'' @ [NL] @ ''>div'' @ [NL] @ ''>>p(B)''"

definition skipped_template :: string where
  "skipped_template = ''>>'' @ [NL] @ ''a''"

definition failing_template :: string where
  "failing_template = ''a'' @ [NL] @ ''>b'' @ [NL] @ ''c'' @ [NL] @ ''>-'' @ [NL] @ ''d''"

definition refused_template :: string where
  "refused_template = ''1'' @ [NL] @ ''-''"

definition flat_template :: string where
  "flat_template = ''a'' @ [NL] @ ''b(B)'' @ [NL] @ ''c''"

definition flat_failing_template :: string where
  "flat_failing_template = ''a'' @ [NL] @ ''-'' @ [NL] @ ''b''"

definition flat_refused_template :: string where
  "flat_refused_template = ''a'' @ [NL] @ ''1'' @ [NL] @ ''b''"

definition prefixed_template :: string where
  "prefixed_template = ''>x'' @ [NL] @ ''>>'' @ [NL] @ ''a'' @ [NL] @ ''>b''"

definition unprefixed_template :: string where
  "unprefixed_template = ''a'' @ [NL] @ ''>b''"

definition rootless_template :: string where
  "rootless_template = ''>a'' @ [NL] @ ''>>''"

definition blank_prefixed_template :: string where
  "blank_prefixed_template = ''>x'' @ [NL, NL] @ ''a''"

definition blank_line_template :: string where
  "blank_line_template = ''a'' @ [NL, NL] @ ''b''"

definition padded_blank_line_template :: string where
  "padded_blank_line_template = '' a'' @ [NL] @ ''  '' @ [NL] @ ''b ''"

definition inner_space_template :: string where
  "inner_space_template = ''a'' @ [NL] @ '' b''"

definition trimmed_lines_template :: string where
  "trimmed_lines_template = ''  a'' @ [NL] @ ''>b(c d)'' @ [NL, NL] @ ''>>e '' @ [NL]"




definition unregistered_event_line :: string where
  "unregistered_event_line = ''button.big#go(Go)[type=button]@click;hover''"

definition digit_event_line :: string where
  "digit_event_line = ''1@hover''"

definition flat_pending_example :: pending where
  "flat_pending_example = [(fresh_element ''b'', 1), (fresh_element ''i'', 1), (fresh_element ''u'', 1)]"

definition pending_example :: pending where
  "pending_example =
     [(fresh_element ''span'', 1), (fresh_element ''p'', 2), (fresh_element ''b'', 2),
      (fresh_element ''i'', 1)]"

text \<open>
  C1. For a non-empty pending list, \<^verbatim>\<open>_maxLevel\<close> is the maximum depth of the list and
  \<^verbatim>\<open>_getIndexOfDeepestElement\<close> returns a valid index. When the maximum is 1 the index is
  the last one of the list. When the maximum is not 1, or when every depth is at least 1
  (as it is for the pending list of a block, by \<open>block_pending_levels\<close>), the entry
  selected holds the maximum depth and no later entry does: among the entries of maximum
  depth it is the one with the highest index.
\<close>

theorem deepest_entry_selected:
  assumes "children \<noteq> []"
  shows "\<exists>i m. maxLevel children = Inr m \<and> m = Max (snd ` set children)
           \<and> getIndexOfDeepestElement children = Inr i \<and> i < length children
           \<and> (m = 1 \<longrightarrow> i = length children - 1)
           \<and> (m \<noteq> 1 \<or> (\<forall>c \<in> set children. 1 \<le> snd c) \<longrightarrow>
                snd (children ! i) = m \<and> (\<forall>j. i < j \<and> j < length children \<longrightarrow> snd (children ! j) \<noteq> m))"
proof -
  let ?m = "Max (snd ` set children)"
  let ?P = "\<lambda>i. snd (children ! i) = ?m"
  let ?n = "length children"
  have ml: "maxLevel children = Inr ?m" by (rule maxLevel_Max [OF assms])
  have n0: "0 < ?n" using assms by simp
  show ?thesis
  proof (cases "?m = 1")
    case True
    then have idx: "getIndexOfDeepestElement children = Inr (?n - 1)"
      using ml by (simp add: getIndexOfDeepestElement_def)
    have last_one: "snd (children ! (?n - 1)) = ?m" if ge: "\<forall>c \<in> set children. 1 \<le> snd c"
    proof -
      have mem: "children ! (?n - 1) \<in> set children" using n0 by simp
      then have "snd (children ! (?n - 1)) \<le> ?m" by simp
      moreover have "1 \<le> snd (children ! (?n - 1))" using ge mem by blast
      ultimately show ?thesis using True by simp
    qed
    have "\<forall>j. ?n - 1 < j \<and> j < ?n \<longrightarrow> snd (children ! j) \<noteq> ?m" by auto
    with ml idx True n0 last_one show ?thesis by auto
  next
    case False
    let ?r = "foldl (\<lambda>lastIndex i. if ?P i then i else lastIndex) 1 [0..<?n]"
    have idx: "getIndexOfDeepestElement children = Inr ?r"
      using ml False by (simp add: getIndexOfDeepestElement_def)
    have "\<exists>i<?n. ?P i" by (rule Max_level_attained [OF assms])
    with foldl_last_index [of ?n ?P 1]
    have r: "?r < ?n" "?P ?r" "\<forall>j. ?r < j \<and> j < ?n \<longrightarrow> \<not> ?P j"
      by simp_all
    with ml idx False show ?thesis by auto
  qed
qed

theorem deepest_entry_selected_witness:
  "pending_example \<noteq> []
   \<and> getIndexOfDeepestElement pending_example = Inr 2
   \<and> (\<exists>i. getIndexOfDeepestElement pending_example = Inr i
          \<and> snd (pending_example ! i) = Max (snd ` set pending_example))
   \<and> flat_pending_example \<noteq> [] \<and> maxLevel flat_pending_example = Inr 1
   \<and> (\<exists>i. getIndexOfDeepestElement flat_pending_example = Inr i
          \<and> i = length flat_pending_example - 1)"
proof -
  have ne: "pending_example \<noteq> []" by (simp add: pending_example_def)
  have ev: "getIndexOfDeepestElement pending_example = Inr 2"
    by (simp add: pending_example_def getIndexOfDeepestElement_def)
  have m: "Max (snd ` set pending_example) \<noteq> 1" by (simp add: pending_example_def)
  from deepest_entry_selected [OF ne] ne ev m
  have 1: "\<exists>i. getIndexOfDeepestElement pending_example = Inr i
          \<and> snd (pending_example ! i) = Max (snd ` set pending_example)"
    by auto
  have ne': "flat_pending_example \<noteq> []" by (simp add: flat_pending_example_def)
  have m': "maxLevel flat_pending_example = Inr 1" by (simp add: flat_pending_example_def)
  from deepest_entry_selected [OF ne'] m'
  have 2: "\<exists>i. getIndexOfDeepestElement flat_pending_example = Inr i
          \<and> i = length flat_pending_example - 1"
    by auto
  from ne ev 1 ne' m' 2 show ?thesis by simp
qed

text \<open>
  C2. In one run of the loop body on a non-empty pending list, with \<open>d\<close> the index of the
  chosen deepest entry: the parent index found is the last index before \<open>d\<close> whose depth
  is the depth of \<open>d\<close> minus 1, or none when no earlier entry has that depth; the chosen
  element becomes the first child node of that parent entry, or of the block root when
  there is none; and the pending list afterwards is the list without entry \<open>d\<close>.
\<close>

theorem nearest_parent_and_prepend:
  assumes "cs \<noteq> []"
  shows "\<exists>d p m' cs'.
           getIndexOfDeepestElement cs = Inr d \<and> d < length cs
         \<and> getIndexOfNearestParentElementOf d cs = Inr p
         \<and> reconstruct_step mainElement cs = Inr (m', cs')
         \<and> Suc (length cs') = length cs
         \<and> (case p of
              Some j \<Rightarrow>
                j < d \<and> int (snd (cs ! j)) = int (snd (cs ! d)) - 1
              \<and> (\<forall>k. j < k \<and> k < d \<longrightarrow> int (snd (cs ! k)) \<noteq> int (snd (cs ! d)) - 1)
              \<and> m' = mainElement
              \<and> cs' = splice1 d (cs[j := (prepend (fst (cs ! j)) (ElementNode (fst (cs ! d))), snd (cs ! j))])
              \<and> childNodes (fst (cs' ! j)) = ElementNode (fst (cs ! d)) # childNodes (fst (cs ! j))
            | None \<Rightarrow>
                (\<forall>k<d. int (snd (cs ! k)) \<noteq> int (snd (cs ! d)) - 1)
              \<and> m' = prepend mainElement (ElementNode (fst (cs ! d)))
              \<and> childNodes m' = ElementNode (fst (cs ! d)) # childNodes mainElement
              \<and> cs' = splice1 d cs)"
proof -
  from getIndexOfDeepestElement_valid [OF assms] obtain d
    where d: "getIndexOfDeepestElement cs = Inr d" "d < length cs"
    by blast
  let ?P = "\<lambda>i. int (snd (cs ! i)) = int (snd (cs ! d)) - 1"
  let ?p = "foldl (\<lambda>lastIndex i. if ?P i then Some i else lastIndex) None [0..<d]"
  have p: "getIndexOfNearestParentElementOf d cs = Inr ?p"
    using d(2) by (simp add: getIndexOfNearestParentElementOf_def Let_def)
  show ?thesis
  proof (cases ?p)
    case None
    with foldl_last_index_option [where P = ?P and n = d] have no: "\<forall>k<d. \<not> ?P k" by simp
    have step: "reconstruct_step mainElement cs
                  = Inr (prepend mainElement (ElementNode (fst (cs ! d))), splice1 d cs)"
      using d p None by (simp add: reconstruct_step_def Let_def)
    show ?thesis
      using d p None no step length_splice1 [OF d(2)]
      by (simp add: childNodes_prepend)
  next
    case (Some j)
    with foldl_last_index_option [where P = ?P and n = d]
    have j: "j < d" "?P j" "\<forall>k. j < k \<and> k < d \<longrightarrow> \<not> ?P k" by simp_all
    let ?cs = "cs[j := (prepend (fst (cs ! j)) (ElementNode (fst (cs ! d))), snd (cs ! j))]"
    have step: "reconstruct_step mainElement cs = Inr (mainElement, splice1 d ?cs)"
      using d p Some by (simp add: reconstruct_step_def Let_def)
    have len: "Suc (length (splice1 d ?cs)) = length cs"
      using length_splice1 [of d ?cs] d(2) by simp
    have "splice1 d ?cs ! j = ?cs ! j"
      using j(1) d(2) by (simp add: splice1_nth_before)
    then have ch: "childNodes (fst (splice1 d ?cs ! j))
                     = ElementNode (fst (cs ! d)) # childNodes (fst (cs ! j))"
      using j(1) d(2) by (simp add: childNodes_prepend)
    show ?thesis
      using d p Some j step len ch by simp
  qed
qed

theorem nearest_parent_and_prepend_witness:
  "pending_example \<noteq> []
   \<and> reconstruct_step (fresh_element ''div'') pending_example
       = Inr (fresh_element ''div'',
              [(prepend (fresh_element ''span'') (ElementNode (fresh_element ''b'')), 1),
               (fresh_element ''p'', 2), (fresh_element ''i'', 1)])
   \<and> (\<exists>d p m' cs'. getIndexOfNearestParentElementOf d pending_example = Inr p
          \<and> reconstruct_step (fresh_element ''div'') pending_example = Inr (m', cs')
          \<and> Suc (length cs') = length pending_example)"
proof -
  have ne: "pending_example \<noteq> []" by (simp add: pending_example_def)
  have ev: "reconstruct_step (fresh_element ''div'') pending_example
       = Inr (fresh_element ''div'',
              [(prepend (fresh_element ''span'') (ElementNode (fresh_element ''b'')), 1),
               (fresh_element ''p'', 2), (fresh_element ''i'', 1)])"
    by (simp add: pending_example_def reconstruct_step_def getIndexOfDeepestElement_def
        getIndexOfNearestParentElementOf_def splice1_def)
  from nearest_parent_and_prepend [OF ne, of "fresh_element ''div''"] ne ev show ?thesis
    by blast
qed

text \<open>
  C3, as the code has it. Only the blank lines at the two ends of a template are dropped
  (by the outer trim). A blank line inside is kept as an empty line, and compiling it
  raises:
\<close>

theorem blank_lines_dropped_counterexample:
  "extractLinesFrom blank_line_template = [''a'', [], ''b'']
   \<and> fst (generate builder0 blank_line_template) = Inl (unable_to_parse [])
   \<and> childNodes (parent (snd (generate builder0 blank_line_template)))
       = [ElementNode (fresh_element ''a'')]"
  by code_simp

text \<open>
  C3, amended. \<^verbatim>\<open>_extractLinesFrom\<close> gives one trimmed line for every piece of the trimmed
  template between two newlines, in the order of the pieces: with \<open>ps\<close> the pieces
  (texts without a newline which, each followed by a newline, make up the trimmed
  template followed by a newline; by \<open>pieces_unique\<close> there is one such list), line \<open>i\<close>
  of the result is piece \<open>i\<close> trimmed. So there are as many lines as the trimmed template
  has newlines, plus one, and for a template that is not blank the first and the last
  line are not empty. Nothing is dropped inside: when the template has a line \<open>w\<close> of
  white space only, with text that is not blank before and after it, the result has an
  empty line at the position of \<open>w\<close>, and \<^verbatim>\<open>generate\<close> on the template raises (the error
  of a line without a tag, or the error of the host on a name it refuses).
\<close>

theorem lines_extracted:
  "(\<exists>ps. (\<forall>p \<in> set ps. NL \<notin> set p)
        \<and> concat (map (\<lambda>p. p @ [NL]) ps) = trim t @ [NL]
        \<and> extractLinesFrom t = map trim ps)
   \<and> length (extractLinesFrom t) = Suc (count_list (trim t) NL)
   \<and> (trim t \<noteq> [] \<longrightarrow> hd (extractLinesFrom t) \<noteq> [] \<and> last (extractLinesFrom t) \<noteq> [])
   \<and> (t = a @ [NL] @ w @ [NL] @ b \<and> trim a \<noteq> [] \<and> trim b \<noteq> []
        \<and> (\<forall>c \<in> set w. is_space c) \<and> NL \<notin> set w \<longrightarrow>
          Suc (count_list (dropWhile is_space a) NL) < length (extractLinesFrom t)
        \<and> extractLinesFrom t ! Suc (count_list (dropWhile is_space a) NL) = []
        \<and> (\<exists>e. fst (generate this t) = Inl e
              \<and> (e = InvalidCharacterError
                 \<or> (\<exists>l \<in> set (extractLinesFrom t). REGEX_exec l = None \<and> e = unable_to_parse l))))"
proof -
  have p: "\<exists>ps. (\<forall>p \<in> set ps. NL \<notin> set p)
        \<and> concat (map (\<lambda>p. p @ [NL]) ps) = trim t @ [NL]
        \<and> extractLinesFrom t = map trim ps"
    by (rule extractLinesFrom_pieces)
  have a: "length (extractLinesFrom t) = Suc (count_list (trim t) NL)"
    by (simp add: extractLinesFrom_def split_str_def length_split_from_char)
  have c: "trim t \<noteq> [] \<longrightarrow> hd (extractLinesFrom t) \<noteq> [] \<and> last (extractLinesFrom t) \<noteq> []"
    using extractLinesFrom_ends by blast
  have d: "Suc (count_list (dropWhile is_space a) NL) < length (extractLinesFrom t)
        \<and> extractLinesFrom t ! Suc (count_list (dropWhile is_space a) NL) = []
        \<and> (\<exists>e. fst (generate this t) = Inl e
              \<and> (e = InvalidCharacterError
                 \<or> (\<exists>l \<in> set (extractLinesFrom t). REGEX_exec l = None \<and> e = unable_to_parse l)))"
    if t: "t = a @ [NL] @ w @ [NL] @ b" and ab: "trim a \<noteq> []" "trim b \<noteq> []"
      and w: "\<forall>c \<in> set w. is_space c" "NL \<notin> set w"
  proof -
    let ?k = "Suc (count_list (dropWhile is_space a) NL)"
    from extractLinesFrom_blank_line [OF t ab w]
    have k: "?k < length (extractLinesFrom t)" "extractLinesFrom t ! ?k = []"
      by simp_all
    from ab(1) obtain x where "x \<in> set a" "\<not> is_space x" unfolding trim_eq_Nil_iff by blast
    then have ne: "trim t \<noteq> []" unfolding trim_eq_Nil_iff t by auto
    have f: "isl (createElementFromLine this (extractLinesFrom t ! ?k))"
      by (simp add: k(2) createElementFromLine_None REGEX_exec_Nil)
    have l0: "level (extractLinesFrom t ! ?k) = 0" by (simp add: k(2) level_def)
    from generate_raises [OF ne k(1) f order_refl l0] obtain e k'
      where g: "fst (generate this t) = Inl e"
        and k': "k' < length (extractLinesFrom t)"
          "createElementFromLine this (extractLinesFrom t ! k') = Inl e"
      by auto
    from createElementFromLine_Inl_cases [OF k'(2)] k'(1)
    have "e = InvalidCharacterError
        \<or> (\<exists>l \<in> set (extractLinesFrom t). REGEX_exec l = None \<and> e = unable_to_parse l)"
      by auto
    with k g show ?thesis by blast
  qed
  from p a c d show ?thesis by blast
qed

theorem lines_extracted_witness:
  "padded_blank_line_template = '' a'' @ [NL] @ ''  '' @ [NL] @ ''b ''
   \<and> trim '' a'' \<noteq> [] \<and> trim ''b '' \<noteq> [] \<and> list_all is_space ''  '' \<and> NL \<notin> set ''  ''
   \<and> trim padded_blank_line_template \<noteq> []
   \<and> extractLinesFrom padded_blank_line_template = [''a'', [], ''b'']
   \<and> extractLinesFrom padded_blank_line_template ! Suc (count_list (dropWhile is_space '' a'') NL) = []
   \<and> (\<exists>e. fst (generate builder0 padded_blank_line_template) = Inl e)
   \<and> fst (generate builder0 padded_blank_line_template) = Inl (unable_to_parse [])"
proof -
  have h0: "padded_blank_line_template = '' a'' @ [NL] @ ''  '' @ [NL] @ ''b ''"
    by (simp add: padded_blank_line_template_def)
  have h1: "trim '' a'' \<noteq> []" and h2: "trim ''b '' \<noteq> []" by code_simp+
  have h3: "list_all is_space ''  ''" by code_simp
  then have h3': "\<forall>c \<in> set ''  ''. is_space c" by (simp add: list_all_iff)
  have h4: "NL \<notin> set ''  ''" by code_simp
  have h5: "trim padded_blank_line_template \<noteq> []" by code_simp
  have e1: "extractLinesFrom padded_blank_line_template = [''a'', [], ''b'']" by code_simp
  have e2: "fst (generate builder0 padded_blank_line_template) = Inl (unable_to_parse [])"
    by code_simp
  from lines_extracted [of padded_blank_line_template "'' a''" "''  ''" "''b ''" builder0]
    h0 h1 h2 h3' h4
  have "extractLinesFrom padded_blank_line_template ! Suc (count_list (dropWhile is_space '' a'') NL) = []
      \<and> (\<exists>e. fst (generate builder0 padded_blank_line_template) = Inl e)"
    by blast
  with h0 h1 h2 h3 h4 h5 e1 e2 show ?thesis by simp
qed




text \<open>
  C5, as the code has it. \<^verbatim>\<open>indentTemplate\<close> trims every line on its own, so with 0
  levels the white space around an inner line is lost:
\<close>

theorem indentTemplate_zero_counterexample:
  "indentTemplate inner_space_template 0 = ''a'' @ [NL] @ ''b''
   \<and> trim inner_space_template = ''a'' @ [NL] @ '' b''
   \<and> indentTemplate inner_space_template 0 \<noteq> trim inner_space_template"
  by code_simp

text \<open>
  C5, amended. For every template \<open>t\<close> in which no line of \<open>trim t\<close> has white space
  at its ends, \<open>indentTemplate t 0\<close> is \<open>trim t\<close>. (The function is total: no error is
  raised.)
\<close>

theorem indentTemplate_zero:
  "(\<forall>l \<in> set (split_str (trim t) [NL]). trim l = l) \<longrightarrow> indentTemplate t 0 = trim t"
proof
  assume tr: "\<forall>l \<in> set (split_str (trim t) [NL]). trim l = l"
  then have "extractLinesFrom t = split_from [NL] [] (trim t)"
    by (simp add: extractLinesFrom_def split_str_def map_idI)
  then have "indentTemplate t 0 = trim (concat (map (\<lambda>l. l @ [NL]) (split_from [NL] [] (trim t))))"
    by (simp add: indentTemplate_def foldl_append_concat)
  also have "\<dots> = trim (trim t @ [NL])" by (simp add: concat_split_from_char)
  also have "\<dots> = trim t" by (rule trim_append_NL)
  finally show "indentTemplate t 0 = trim t" .
qed

theorem indentTemplate_zero_witness:
  "list_all (\<lambda>l. trim l = l) (split_str (trim trimmed_lines_template) [NL])
   \<and> indentTemplate trimmed_lines_template 0 = trim trimmed_lines_template
   \<and> indentTemplate trimmed_lines_template 0 = ''a'' @ [NL] @ ''>b(c d)'' @ [NL, NL] @ ''>>e''"
proof -
  have h: "list_all (\<lambda>l. trim l = l) (split_str (trim trimmed_lines_template) [NL])"
    by code_simp
  then have h': "\<forall>l \<in> set (split_str (trim trimmed_lines_template) [NL]). trim l = l"
    by (simp add: list_all_iff)
  have e: "trim trimmed_lines_template = ''a'' @ [NL] @ ''>b(c d)'' @ [NL, NL] @ ''>>e''"
    by code_simp
  from indentTemplate_zero [of trimmed_lines_template] h'
  have "indentTemplate trimmed_lines_template 0 = trim trimmed_lines_template" by blast
  with h e show ?thesis by simp
qed

text \<open>
  C6, as the code has it. A line without a tag that stands before the first line of
  level 0 is never read, so it raises nothing:
\<close>

theorem malformed_line_not_raised_counterexample:
  "REGEX_exec (extractLinesFrom skipped_template ! 0) = None
   \<and> fst (generate builder0 skipped_template) = Inr ()
   \<and> childNodes (parent (snd (generate builder0 skipped_template)))
       = [ElementNode (fresh_element ''a'')]"
  by code_simp

text \<open>
  C6, amended. For every template that is not blank, in which a line at or after the
  first line of level 0 yields no tag, \<^verbatim>\<open>generate\<close> raises. The error is the one of the
  first block that fails: the error of a line of the template without a tag, or the
  \<^verbatim>\<open>InvalidCharacterError\<close> of the host on a tag or an attribute name it refuses; it is
  the error of a line without a tag when the host accepts every line that has a tag.
  With \<open>n\<close> the index of the first block that raises: the \<open>n\<close> blocks before it were
  built, their roots are appended to the parent in block order, and nothing else is
  appended, so no node of the failing block is attached.
\<close>

theorem malformed_line_raises:
  assumes "trim template \<noteq> []"
    and "k < length (extractLinesFrom template)"
    and "REGEX_exec (extractLinesFrom template ! k) = None"
    and "j \<le> k" and "level (extractLinesFrom template ! j) = 0"
  shows "\<exists>n e roots.
        fst (generate this template) = Inl e
      \<and> (e = InvalidCharacterError
         \<or> (\<exists>l \<in> set (extractLinesFrom template). REGEX_exec l = None \<and> e = unable_to_parse l))
      \<and> ((\<forall>l \<in> set (extractLinesFrom template). REGEX_exec l = None \<or> line_accepted this l)
           \<longrightarrow> (\<exists>l \<in> set (extractLinesFrom template). REGEX_exec l = None \<and> e = unable_to_parse l))
      \<and> n < length (block_results this (extractLinesFrom template) (mainLines_of (extractLinesFrom template)))
      \<and> length roots = n
      \<and> (\<forall>i<n. block_results this (extractLinesFrom template) (mainLines_of (extractLinesFrom template)) ! i
                  = Inr (roots ! i))
      \<and> block_results this (extractLinesFrom template) (mainLines_of (extractLinesFrom template)) ! n
           = Inl e
      \<and> snd (generate this template)
           = this\<lparr>parent := foldl appendChild (parent this) (map ElementNode roots)\<rparr>
      \<and> childNodes (parent (snd (generate this template)))
           = childNodes (parent this) @ map ElementNode roots"
proof -
  let ?lines = "extractLinesFrom template"
  let ?rs = "block_results this ?lines (mainLines_of ?lines)"
  have f: "isl (createElementFromLine this (?lines ! k))"
    by (simp add: createElementFromLine_None [OF assms(3)])
  from generate_raises [OF assms(1,2) f assms(4,5)] obtain n e k'
    where n: "n < length ?rs" "\<forall>i<n. \<not> isl (?rs ! i)" "?rs ! n = Inl e"
      and k': "k' < length ?lines" "createElementFromLine this (?lines ! k') = Inl e"
      and g: "generate this template =
          (Inl e,
           this\<lparr>parent := foldl appendChild (parent this)
              (map (\<lambda>r. ElementNode (projr r)) (take n ?rs))\<rparr>)"
    by blast
  from k'(1) have mem: "?lines ! k' \<in> set ?lines" by simp
  have e: "(e = InvalidCharacterError
         \<or> (\<exists>l \<in> set ?lines. REGEX_exec l = None \<and> e = unable_to_parse l))
      \<and> ((\<forall>l \<in> set ?lines. REGEX_exec l = None \<or> line_accepted this l)
           \<longrightarrow> (\<exists>l \<in> set ?lines. REGEX_exec l = None \<and> e = unable_to_parse l))"
    using createElementFromLine_Inl_cases [OF k'(2)]
  proof (elim disjE conjE)
    assume a: "REGEX_exec (?lines ! k') = None" "e = unable_to_parse (?lines ! k')"
    have "\<exists>l \<in> set ?lines. REGEX_exec l = None \<and> e = unable_to_parse l"
      by (rule bexI [OF _ mem]) (rule conjI [OF a])
    then show ?thesis by simp
  next
    assume a: "\<not> line_accepted this (?lines ! k')" "REGEX_exec (?lines ! k') \<noteq> None"
      "e = InvalidCharacterError"
    have no: "\<not> (\<forall>l \<in> set ?lines. REGEX_exec l = None \<or> line_accepted this l)"
    proof
      assume "\<forall>l \<in> set ?lines. REGEX_exec l = None \<or> line_accepted this l"
      from bspec [OF this mem] a(1,2) show False by simp
    qed
    show ?thesis
    proof (intro conjI impI)
      show "e = InvalidCharacterError
         \<or> (\<exists>l \<in> set ?lines. REGEX_exec l = None \<and> e = unable_to_parse l)"
        using a(3) by (rule disjI1)
    next
      assume all: "\<forall>l \<in> set ?lines. REGEX_exec l = None \<or> line_accepted this l"
      from no all show "\<exists>l \<in> set ?lines. REGEX_exec l = None \<and> e = unable_to_parse l"
        by (rule notE)
    qed
  qed
  let ?roots = "map projr (take n ?rs)"
  have len: "length ?roots = n" using n(1) by simp
  have built: "\<forall>i<n. ?rs ! i = Inr (?roots ! i)"
  proof (intro allI impI)
    fix i assume i: "i < n"
    with n(2) have "\<not> isl (?rs ! i)" by blast
    then have "?rs ! i = Inr (projr (?rs ! i))" by (cases "?rs ! i") simp_all
    with i n(1) show "?rs ! i = Inr (?roots ! i)" by simp
  qed
  have m: "map (\<lambda>r. ElementNode (projr r)) (take n ?rs) = map ElementNode ?roots"
    by simp
  from g have g1: "fst (generate this template) = Inl e"
    and g2: "snd (generate this template)
           = this\<lparr>parent := foldl appendChild (parent this) (map ElementNode ?roots)\<rparr>"
    unfolding m by simp_all
  from g2 have g3: "childNodes (parent (snd (generate this template)))
           = childNodes (parent this) @ map ElementNode ?roots"
    by (simp add: childNodes_foldl_appendChild)
  show ?thesis
  proof (intro exI [of _ n] exI [of _ e] exI [of _ ?roots] conjI)
    show "fst (generate this template) = Inl e" by (rule g1)
    show "e = InvalidCharacterError
         \<or> (\<exists>l \<in> set ?lines. REGEX_exec l = None \<and> e = unable_to_parse l)"
      using e by (rule conjunct1)
    show "(\<forall>l \<in> set ?lines. REGEX_exec l = None \<or> line_accepted this l)
           \<longrightarrow> (\<exists>l \<in> set ?lines. REGEX_exec l = None \<and> e = unable_to_parse l)"
      using e by (rule conjunct2)
    show "n < length ?rs" by (rule n(1))
    show "length ?roots = n" by (rule len)
    show "\<forall>i<n. ?rs ! i = Inr (?roots ! i)" by (rule built)
    show "?rs ! n = Inl e" by (rule n(3))
    show "snd (generate this template)
           = this\<lparr>parent := foldl appendChild (parent this) (map ElementNode ?roots)\<rparr>"
      by (rule g2)
    show "childNodes (parent (snd (generate this template)))
           = childNodes (parent this) @ map ElementNode ?roots"
      by (rule g3)
  qed
qed

theorem malformed_line_raises_witness:
  "trim failing_template \<noteq> []
   \<and> (3::nat) < length (extractLinesFrom failing_template)
   \<and> REGEX_exec (extractLinesFrom failing_template ! 3) = None
   \<and> level (extractLinesFrom failing_template ! 0) = 0
   \<and> list_all (\<lambda>l. REGEX_exec l = None \<or> line_accepted builder0 l)
       (extractLinesFrom failing_template)
   \<and> fst (generate builder0 failing_template) = Inl (unable_to_parse ''>-'')
   \<and> childNodes (parent (snd (generate builder0 failing_template)))
       = [ElementNode (prepend (fresh_element ''a'') (ElementNode (fresh_element ''b'')))]
   \<and> (\<exists>l roots. REGEX_exec l = None
         \<and> fst (generate builder0 failing_template) = Inl (unable_to_parse l)
         \<and> childNodes (parent (snd (generate builder0 failing_template)))
             = childNodes (parent builder0) @ map ElementNode roots)
   \<and> trim refused_template \<noteq> []
   \<and> REGEX_exec (extractLinesFrom refused_template ! 1) = None
   \<and> fst (generate builder0 refused_template) = Inl InvalidCharacterError
   \<and> (\<exists>e roots. fst (generate builder0 refused_template) = Inl e
         \<and> childNodes (parent (snd (generate builder0 refused_template)))
             = childNodes (parent builder0) @ map ElementNode roots)"
proof -
  have h1: "trim failing_template \<noteq> []" by code_simp
  have h2: "(3::nat) < length (extractLinesFrom failing_template)" by code_simp
  have h3: "REGEX_exec (extractLinesFrom failing_template ! 3) = None" by code_simp
  have h4: "(0::nat) \<le> 3" by simp
  have h5: "level (extractLinesFrom failing_template ! 0) = 0" by code_simp
  have h6: "list_all (\<lambda>l. REGEX_exec l = None \<or> line_accepted builder0 l)
       (extractLinesFrom failing_template)"
    by code_simp
  then have h6': "\<forall>l \<in> set (extractLinesFrom failing_template).
       REGEX_exec l = None \<or> line_accepted builder0 l"
    by (simp add: list_all_iff)
  have e1: "fst (generate builder0 failing_template) = Inl (unable_to_parse ''>-'')" by code_simp
  have e2: "childNodes (parent (snd (generate builder0 failing_template)))
       = [ElementNode (prepend (fresh_element ''a'') (ElementNode (fresh_element ''b'')))]"
    by code_simp
  from malformed_line_raises [OF h1 h2 h3 h4 h5, of builder0]
  have c1: "\<exists>l roots. REGEX_exec l = None
         \<and> fst (generate builder0 failing_template) = Inl (unable_to_parse l)
         \<and> childNodes (parent (snd (generate builder0 failing_template)))
             = childNodes (parent builder0) @ map ElementNode roots"
  proof (elim exE conjE)
    fix e roots
    assume g: "fst (generate builder0 failing_template) = Inl e"
      and i: "(\<forall>l \<in> set (extractLinesFrom failing_template).
                 REGEX_exec l = None \<or> line_accepted builder0 l)
           \<longrightarrow> (\<exists>l \<in> set (extractLinesFrom failing_template).
                 REGEX_exec l = None \<and> e = unable_to_parse l)"
      and c: "childNodes (parent (snd (generate builder0 failing_template)))
             = childNodes (parent builder0) @ map ElementNode roots"
    from i h6' obtain l where "REGEX_exec l = None" "e = unable_to_parse l" by blast
    with g c show ?thesis by blast
  qed
  have r1: "trim refused_template \<noteq> []" by code_simp
  have r2: "(1::nat) < length (extractLinesFrom refused_template)" by code_simp
  have r3: "REGEX_exec (extractLinesFrom refused_template ! 1) = None" by code_simp
  have r4: "(0::nat) \<le> 1" by simp
  have r5: "level (extractLinesFrom refused_template ! 0) = 0" by code_simp
  have e3: "fst (generate builder0 refused_template) = Inl InvalidCharacterError" by code_simp
  from malformed_line_raises [OF r1 r2 r3 r4 r5, of builder0]
  have c2: "\<exists>e roots. fst (generate builder0 refused_template) = Inl e
         \<and> childNodes (parent (snd (generate builder0 refused_template)))
             = childNodes (parent builder0) @ map ElementNode roots"
  proof (elim exE conjE)
    fix e roots
    assume "fst (generate builder0 refused_template) = Inl e"
      and "childNodes (parent (snd (generate builder0 refused_template)))
             = childNodes (parent builder0) @ map ElementNode roots"
    then show ?thesis by blast
  qed
  show ?thesis
    by (intro conjI) (rule h1 h2 h3 h5 h6 e1 e2 c1 r1 r3 e3 c2)+
qed

text \<open>
  C7, as the code has it. A line of level 0 without a tag raises, and so does a line of
  level 0 whose tag the host refuses, so a template of level-0 lines that are not blank
  can end with fewer roots than lines:
\<close>

theorem top_level_lines_roots_counterexample:
  "map level (extractLinesFrom flat_failing_template) = [0, 0, 0]
   \<and> filter (\<lambda>l. trim l = []) (extractLinesFrom flat_failing_template) = []
   \<and> fst (generate builder0 flat_failing_template) = Inl (unable_to_parse ''-'')
   \<and> childNodes (parent (snd (generate builder0 flat_failing_template)))
       = [ElementNode (fresh_element ''a'')]
   \<and> map level (extractLinesFrom flat_refused_template) = [0, 0, 0]
   \<and> filter (\<lambda>l. trim l = []) (extractLinesFrom flat_refused_template) = []
   \<and> fst (generate builder0 flat_refused_template) = Inl InvalidCharacterError
   \<and> childNodes (parent (snd (generate builder0 flat_refused_template)))
       = [ElementNode (fresh_element ''a'')]"
  by code_simp

text \<open>
  C7, amended. For every template that is not blank, whose lines all have level 0, all
  yield a tag and are all accepted by the host (it takes the tag and the attribute names
  of the line as names), \<^verbatim>\<open>generate\<close> raises nothing and appends exactly one root per
  line, in the order of the lines: the roots are the elements made from the lines, and a
  root has no child node but the text node of its content.
\<close>

theorem top_level_lines_roots:
  assumes "trim template \<noteq> []"
    and "\<forall>l \<in> set (extractLinesFrom template). level l = 0 \<and> line_accepted this l"
  shows "\<exists>roots. map Inr roots = map (createElementFromLine this) (extractLinesFrom template)
      \<and> generate this template =
          (Inr (), this\<lparr>parent := foldl appendChild (parent this) (map ElementNode roots)\<rparr>)
      \<and> childNodes (parent (snd (generate this template)))
          = childNodes (parent this) @ map ElementNode roots
      \<and> (\<forall>r \<in> set roots. \<forall>c \<in> set (childNodes r). \<exists>s. c = TextNode s)"
proof -
  let ?lines = "extractLinesFrom template"
  let ?rs = "map (createElementFromLine this) ?lines"
  let ?roots = "map projr ?rs"
  from assms(2) have rs: "block_results this ?lines (mainLines_of ?lines) = ?rs"
    by (simp add: block_results_all)
  have ok: "\<forall>r \<in> set ?rs. \<not> isl r"
  proof
    fix r assume "r \<in> set ?rs"
    then obtain l where l: "l \<in> set ?lines" "r = createElementFromLine this l" by auto
    with assms(2) have "line_accepted this l" by blast
    with l(2) show "\<not> isl r" by (simp add: line_accepted_iff)
  qed
  then have inr: "map Inr ?roots = ?rs"
    by (simp add: map_idI)
  from ok have tw: "takeWhile (\<lambda>r. \<not> isl r) ?rs = ?rs"
    and dw: "dropWhile (\<lambda>r. \<not> isl r) ?rs = []"
    by (simp_all add: takeWhile_eq_all_conv dropWhile_eq_Nil_conv)
  have fe: "first_error ?rs = Inr ()" and br: "built_roots ?rs = ?roots"
    unfolding first_error_def built_roots_def tw dw by simp_all
  have gen: "generate this template =
      (Inr (), this\<lparr>parent := foldl appendChild (parent this) (map ElementNode ?roots)\<rparr>)"
    using generate_eq [OF assms(1), of this] rs fe br by simp
  have ch: "\<forall>r \<in> set ?roots. \<forall>c \<in> set (childNodes r). \<exists>s. c = TextNode s"
  proof
    fix r assume "r \<in> set ?roots"
    then obtain x where x: "x \<in> set ?rs" "r = projr x" by auto
    from ok x(1) have "\<not> isl x" by blast
    with x(2) have "x = Inr r" by (cases x) simp_all
    with x(1) obtain l where "createElementFromLine this l = Inr r" by auto
    then show "\<forall>c \<in> set (childNodes r). \<exists>s. c = TextNode s"
      by (rule childNodes_createElementFromLine)
  qed
  show ?thesis
    using inr gen ch by (intro exI [of _ ?roots]) (simp add: childNodes_foldl_appendChild)
qed

theorem top_level_lines_roots_witness:
  "trim flat_template \<noteq> []
   \<and> list_all (\<lambda>l. level l = 0 \<and> line_accepted builder0 l) (extractLinesFrom flat_template)
   \<and> fst (generate builder0 flat_template) = Inr ()
   \<and> childNodes (parent (snd (generate builder0 flat_template)))
       = [ElementNode (fresh_element ''a''),
          ElementNode (appendChild (fresh_element ''b'') (TextNode ''B'')),
          ElementNode (fresh_element ''c'')]
   \<and> (\<exists>roots. map Inr roots = map (createElementFromLine builder0) (extractLinesFrom flat_template)
         \<and> childNodes (parent (snd (generate builder0 flat_template)))
             = childNodes (parent builder0) @ map ElementNode roots)"
proof -
  have h1: "trim flat_template \<noteq> []" by code_simp
  have h2: "list_all (\<lambda>l. level l = 0 \<and> line_accepted builder0 l) (extractLinesFrom flat_template)"
    by code_simp
  then have h2': "\<forall>l \<in> set (extractLinesFrom flat_template). level l = 0 \<and> line_accepted builder0 l"
    by (simp add: list_all_iff)
  have e1: "fst (generate builder0 flat_template) = Inr ()" by code_simp
  have e2: "childNodes (parent (snd (generate builder0 flat_template)))
       = [ElementNode (fresh_element ''a''),
          ElementNode (appendChild (fresh_element ''b'') (TextNode ''B'')),
          ElementNode (fresh_element ''c'')]"
    by code_simp
  from top_level_lines_roots [OF h1 h2']
  have "\<exists>roots. map Inr roots = map (createElementFromLine builder0) (extractLinesFrom flat_template)
         \<and> childNodes (parent (snd (generate builder0 flat_template)))
             = childNodes (parent builder0) @ map ElementNode roots"
    by blast
  with h1 h2 e1 e2 show ?thesis by simp
qed

text \<open>
  C8, as the code has it. A line that names an event which is not registered raises
  when the host refuses its tag (or one of its attribute names):
\<close>

theorem unregistered_event_ignored_counterexample:
  "REGEX_exec digit_event_line
     = Some \<lparr>g1 = Some ''1'', g2 = None, g3 = None, g4 = None, g5 = None, g6 = Some ''hover''\<rparr>
   \<and> map name (EVENTS builder0) = [''click'']
   \<and> createElementFromLine builder0 digit_event_line = Inl InvalidCharacterError"
  by code_simp

text \<open>
  C8, amended. For a line whose event group names \<open>n\<close>, with no event of the registry
  having exactly the name \<open>n\<close>: the lookup of \<open>n\<close> finds nothing, and
  \<^verbatim>\<open>_createElementFromLine\<close> does what it does when \<open>n\<close> is not written in the event group.
  It raises only when the host refuses the tag or an attribute name of the line, and
  then the \<^verbatim>\<open>InvalidCharacterError\<close> of the host. When the host accepts the line it
  returns an element; the listeners of the element are those of the other names of the
  line; and the local name, the attributes (the id and the classes among them) and the
  child nodes of the element are what they are under any other registry.
\<close>

theorem unregistered_event_ignored:
  assumes "REGEX_exec line = Some m" and "or_null (g6 m) = Some s"
    and "n \<in> set (filter (\<lambda>v. v \<noteq> []) (split_str s '';''))"
    and "n \<notin> set (map name (EVENTS this))"
  shows "searchForEvent this n = None
      \<and> createElementFromLine this line
          = materialize this (the (g1 m))
              (map_option (\<lambda>s. filter (\<lambda>v. v \<noteq> []) (split_str s ''.'')) (or_null (g2 m)))
              (map_option (\<lambda>s. split_str s (SYMBOL_BETWEEN_ATTRIBUTES this)) (or_null (g5 m)))
              (map_option (remove1 (CHR ''#'')) (or_null (g3 m)))
              (or_null (g4 m))
              (Some (filter (\<lambda>x. x \<noteq> n) (filter (\<lambda>v. v \<noteq> []) (split_str s '';''))))
      \<and> (\<not> line_accepted this line \<longrightarrow> createElementFromLine this line = Inl InvalidCharacterError)
      \<and> (line_accepted this line \<longrightarrow>
           (\<exists>e. createElementFromLine this line = Inr e
              \<and> listeners e
                  = resolved_listeners this
                      (filter (\<lambda>x. x \<noteq> n) (filter (\<lambda>v. v \<noteq> []) (split_str s '';'')))
              \<and> (\<forall>evs. \<exists>e'. createElementFromLine (this\<lparr>EVENTS := evs\<rparr>) line = Inr e'
                    \<and> localName e' = localName e \<and> attributes e' = attributes e
                    \<and> childNodes e' = childNodes e)))"
proof -
  let ?ns = "filter (\<lambda>v. v \<noteq> []) (split_str s '';'')"
  let ?tag = "the (g1 m)"
  let ?classes = "map_option (\<lambda>s. filter (\<lambda>v. v \<noteq> []) (split_str s ''.'')) (or_null (g2 m))"
  let ?attrs = "map_option (\<lambda>s. split_str s (SYMBOL_BETWEEN_ATTRIBUTES this)) (or_null (g5 m))"
  let ?ident = "map_option (remove1 (CHR ''#'')) (or_null (g3 m))"
  let ?content = "or_null (g4 m)"
  from assms(4) have none: "searchForEvent this n = None"
    by (simp add: searchForEvent_None_iff)
  have ce: "createElementFromLine (this\<lparr>EVENTS := evs\<rparr>) line
      = materialize (this\<lparr>EVENTS := evs\<rparr>) ?tag ?classes ?attrs ?ident ?content (Some ?ns)" for evs
    using createElementFromLine_Some [OF assms(1), of "this\<lparr>EVENTS := evs\<rparr>"]
    by (simp add: assms(2))
  from ce [of "EVENTS this"]
  have c: "createElementFromLine this line
      = materialize this ?tag ?classes ?attrs ?ident ?content (Some ?ns)"
    by simp
  have a: "createElementFromLine this line
      = materialize this ?tag ?classes ?attrs ?ident ?content (Some (filter (\<lambda>x. x \<noteq> n) ?ns))"
    unfolding c by (rule materialize_unregistered [OF none])
  have b: "createElementFromLine this line = Inl InvalidCharacterError"
    if na: "\<not> line_accepted this line"
  proof -
    from na have "isl (createElementFromLine this line)"
      using line_accepted_iff [of this line] by simp
    then obtain err where err: "createElementFromLine this line = Inl err"
      by (cases "createElementFromLine this line") auto
    from createElementFromLine_Inl_cases [OF err] assms(1) err show ?thesis by simp
  qed
  have d: "\<exists>e. createElementFromLine this line = Inr e
              \<and> listeners e = resolved_listeners this (filter (\<lambda>x. x \<noteq> n) ?ns)
              \<and> (\<forall>evs. \<exists>e'. createElementFromLine (this\<lparr>EVENTS := evs\<rparr>) line = Inr e'
                    \<and> localName e' = localName e \<and> attributes e' = attributes e
                    \<and> childNodes e' = childNodes e)"
    if acc: "line_accepted this line"
  proof -
    from acc have "\<not> isl (createElementFromLine this line)"
      using line_accepted_iff [of this line] by simp
    then obtain e where e: "createElementFromLine this line = Inr e"
      by (cases "createElementFromLine this line") auto
    from e c have me: "materialize this ?tag ?classes ?attrs ?ident ?content (Some ?ns) = Inr e"
      by simp
    from materialize_fields(3) [OF me]
    have "listeners e = resolved_listeners this ?ns" by simp
    also have "\<dots> = resolved_listeners this (filter (\<lambda>x. x \<noteq> n) ?ns)"
      by (rule resolved_listeners_unregistered [OF none])
    finally have l: "listeners e = resolved_listeners this (filter (\<lambda>x. x \<noteq> n) ?ns)" .
    have "\<exists>e'. createElementFromLine (this\<lparr>EVENTS := evs\<rparr>) line = Inr e'
                    \<and> localName e' = localName e \<and> attributes e' = attributes e
                    \<and> childNodes e' = childNodes e" for evs
      unfolding ce using materialize_registry [OF me, of evs] by simp
    with e l show ?thesis by blast
  qed
  from none a b d show ?thesis by blast
qed

theorem unregistered_event_ignored_witness:
  "REGEX_exec unregistered_event_line
     = Some \<lparr>g1 = Some ''button'', g2 = Some ''.big'', g3 = Some ''#go'', g4 = Some ''Go'',
             g5 = Some ''type=button'', g6 = Some ''click;hover''\<rparr>
   \<and> ''hover'' \<in> set (filter (\<lambda>v. v \<noteq> []) (split_str ''click;hover'' '';''))
   \<and> ''hover'' \<notin> set (map name (EVENTS builder0))
   \<and> line_accepted builder0 unregistered_event_line
   \<and> createElementFromLine builder0 unregistered_event_line
       = Inr (Element ''button'' [(''class'', ''big''), (''type'', ''button''), (''id'', ''go'')]
                [(''click'', 0, False)] [TextNode ''Go''])
   \<and> (\<exists>e. createElementFromLine builder0 unregistered_event_line = Inr e
          \<and> listeners e = resolved_listeners builder0
               (filter (\<lambda>x. x \<noteq> ''hover'') (filter (\<lambda>v. v \<noteq> []) (split_str ''click;hover'' '';''))))
   \<and> ''hover'' \<in> set (filter (\<lambda>v. v \<noteq> []) (split_str ''hover'' '';''))
   \<and> \<not> line_accepted builder0 digit_event_line
   \<and> createElementFromLine builder0 digit_event_line = Inl InvalidCharacterError"
proof -
  let ?m = "\<lparr>g1 = Some ''button'', g2 = Some ''.big'', g3 = Some ''#go'', g4 = Some ''Go'',
             g5 = Some ''type=button'', g6 = Some ''click;hover''\<rparr>"
  let ?m' = "\<lparr>g1 = Some ''1'', g2 = None, g3 = None, g4 = None, g5 = None, g6 = Some ''hover''\<rparr>"
  have h1: "REGEX_exec unregistered_event_line = Some ?m" by code_simp
  have h2: "or_null (g6 ?m) = Some ''click;hover''" by code_simp
  have h3: "''hover'' \<in> set (filter (\<lambda>v. v \<noteq> []) (split_str ''click;hover'' '';''))"
    by code_simp
  have h4: "''hover'' \<notin> set (map name (EVENTS builder0))" by code_simp
  have h5: "line_accepted builder0 unregistered_event_line" by code_simp
  have e1: "createElementFromLine builder0 unregistered_event_line
       = Inr (Element ''button'' [(''class'', ''big''), (''type'', ''button''), (''id'', ''go'')]
                [(''click'', 0, False)] [TextNode ''Go''])"
    by code_simp
  from unregistered_event_ignored [OF h1 h2 h3 h4] h5
  have c1: "\<exists>e. createElementFromLine builder0 unregistered_event_line = Inr e
          \<and> listeners e = resolved_listeners builder0
               (filter (\<lambda>x. x \<noteq> ''hover'') (filter (\<lambda>v. v \<noteq> []) (split_str ''click;hover'' '';'')))"
    by blast
  have r1: "REGEX_exec digit_event_line = Some ?m'" by code_simp
  have r2: "or_null (g6 ?m') = Some ''hover''" by code_simp
  have r3: "''hover'' \<in> set (filter (\<lambda>v. v \<noteq> []) (split_str ''hover'' '';''))" by code_simp
  have r5: "\<not> line_accepted builder0 digit_event_line" by code_simp
  from unregistered_event_ignored [OF r1 r2 r3 h4] r5
  have c2: "createElementFromLine builder0 digit_event_line = Inl InvalidCharacterError"
    by blast
  from h1 h3 h4 h5 e1 c1 r3 r5 c2 show ?thesis by blast
qed

text \<open>
  C9. \<^verbatim>\<open>generate\<close> and the loops it runs are total functions: the reconstruction loop is
  defined by recursion on a pending list that gets shorter. For a non-empty pending list
  the index of the deepest entry is a valid index; every run of the loop body succeeds
  and removes exactly one entry, so after \<open>k\<close> runs the list has \<open>k\<close> entries less; the
  loop returns after as many runs as the list has entries, when the list is empty; and
  \<^verbatim>\<open>generate\<close> never ends with a read outside a list.
\<close>

theorem generate_terminates:
  "(cs \<noteq> [] \<longrightarrow> (\<exists>d. getIndexOfDeepestElement cs = Inr d \<and> d < length cs))
   \<and> (\<forall>k \<le> length cs. \<exists>m' cs'. steps k m cs = Inr (m', cs') \<and> length cs' = length cs - k)
   \<and> (\<exists>r. reconstruct m cs = Inr r \<and> steps (length cs) m cs = Inr (r, []))
   \<and> fst (generate this template) \<noteq> Inl TypeError"
proof -
  have a: "cs \<noteq> [] \<longrightarrow> (\<exists>d. getIndexOfDeepestElement cs = Inr d \<and> d < length cs)"
    using getIndexOfDeepestElement_valid [of cs] by blast
  have b: "\<forall>k \<le> length cs. \<exists>m' cs'. steps k m cs = Inr (m', cs') \<and> length cs' = length cs - k"
    using steps_length [of _ cs m] by blast
  have c: "\<exists>r. reconstruct m cs = Inr r \<and> steps (length cs) m cs = Inr (r, [])"
    by (rule reconstruct_steps)
  have d: "fst (generate this template) \<noteq> Inl TypeError"
  proof (cases "length (trim template) = 0")
    case True
    then show ?thesis by (simp add: generate_def)
  next
    case False
    then show ?thesis
      using generate_blocks_not_TypeError [of this "extractLinesFrom template"]
      by (simp add: generate_def Let_def)
  qed
  from a b c d show ?thesis by blast
qed

theorem generate_terminates_witness:
  "pending_example \<noteq> [] \<and> (2::nat) \<le> length pending_example
   \<and> (\<exists>d. getIndexOfDeepestElement pending_example = Inr d \<and> d < length pending_example)
   \<and> (\<exists>m' cs'. steps 2 (fresh_element ''div'') pending_example = Inr (m', cs') \<and> length cs' = 2)
   \<and> (\<exists>r. reconstruct (fresh_element ''div'') pending_example = Inr r)
   \<and> fst (generate builder0 nested_template) = Inr ()"
proof -
  have ne: "pending_example \<noteq> []" and len: "length pending_example = 4"
    by (simp_all add: pending_example_def)
  have ev: "fst (generate builder0 nested_template) = Inr ()"
    by code_simp
  note t = generate_terminates [of pending_example "fresh_element ''div''" builder0 nested_template]
  from t ne have d: "\<exists>d. getIndexOfDeepestElement pending_example = Inr d \<and> d < length pending_example"
    by blast
  from t have "\<forall>k \<le> length pending_example. \<exists>m' cs'.
      steps k (fresh_element ''div'') pending_example = Inr (m', cs')
      \<and> length cs' = length pending_example - k"
    by blast
  moreover have "(2::nat) \<le> length pending_example" using len by simp
  ultimately have "\<exists>m' cs'. steps 2 (fresh_element ''div'') pending_example = Inr (m', cs')
      \<and> length cs' = length pending_example - 2"
    by blast
  moreover from t have "\<exists>r. reconstruct (fresh_element ''div'') pending_example = Inr r"
    by blast
  ultimately show ?thesis using d ne len ev by simp
qed

text \<open>
  C10, as the code has it. An empty line has level 0, so in a template that starts
  with a line of level 1 the first line that is read can be a blank line, standing
  before the first line with a tag and no marker; it raises, and the template does not
  compile as the template that begins at that line does:
\<close>

theorem lines_before_first_main_line_skipped_counterexample:
  "extractLinesFrom blank_prefixed_template = [''>x'', [], ''a'']
   \<and> map level (extractLinesFrom blank_prefixed_template) = [1, 0, 0]
   \<and> fst (generate builder0 blank_prefixed_template) = Inl (unable_to_parse [])
   \<and> childNodes (parent (snd (generate builder0 blank_prefixed_template))) = []
   \<and> fst (generate builder0 ''a'') = Inr ()
   \<and> childNodes (parent (snd (generate builder0 ''a''))) = [ElementNode (fresh_element ''a'')]"
  by code_simp

text \<open>
  C10, amended. The lines before the first line of level 0 are skipped, where the
  level is the one \<^verbatim>\<open>_level\<close> computes on the extracted lines. For a template that is
  not blank, \<^verbatim>\<open>generate\<close> gives what its outer loop gives on the extracted lines from
  the first line of level 0 on; so two templates whose extracted lines agree from their
  first line of level 0 on compile alike, whatever stands before (a template that
  begins at that line among them), and the skipped lines are neither read nor able to
  raise. A template without a line of level 0 appends nothing and raises nothing. The
  level is the one \<^verbatim>\<open>_level\<close> computes, for which an empty line has level 0.
\<close>

theorem lines_before_first_main_line_skipped:
  "(trim t \<noteq> [] \<longrightarrow>
      generate this t
        = generate_blocks this (dropWhile (\<lambda>l. level l \<noteq> 0) (extractLinesFrom t))
            (mainLines_of (dropWhile (\<lambda>l. level l \<noteq> 0) (extractLinesFrom t))))
   \<and> (trim t \<noteq> [] \<and> trim t' \<noteq> []
        \<and> dropWhile (\<lambda>l. level l \<noteq> 0) (extractLinesFrom t)
            = dropWhile (\<lambda>l. level l \<noteq> 0) (extractLinesFrom t')
      \<longrightarrow> generate this t = generate this t')
   \<and> ((\<forall>l \<in> set (extractLinesFrom t). level l \<noteq> 0) \<longrightarrow> generate this t = (Inr (), this))"
proof -
  have skip: "generate this u
        = generate_blocks this (dropWhile (\<lambda>l. level l \<noteq> 0) (extractLinesFrom u))
            (mainLines_of (dropWhile (\<lambda>l. level l \<noteq> 0) (extractLinesFrom u)))"
    if "trim u \<noteq> []" for u
    using that generate_blocks_skip [of this "extractLinesFrom u"]
    by (simp add: generate_def Let_def)
  have none: "generate this t = (Inr (), this)"
    if "\<forall>l \<in> set (extractLinesFrom t). level l \<noteq> 0"
    using mainLines_of_none [OF that] by (simp add: generate_def Let_def)
  from skip [of t] skip [of t'] none show ?thesis by auto
qed

theorem lines_before_first_main_line_skipped_witness:
  "trim prefixed_template \<noteq> [] \<and> trim unprefixed_template \<noteq> []
   \<and> dropWhile (\<lambda>l. level l \<noteq> 0) (extractLinesFrom prefixed_template)
       = dropWhile (\<lambda>l. level l \<noteq> 0) (extractLinesFrom unprefixed_template)
   \<and> generate builder0 prefixed_template = generate builder0 unprefixed_template
   \<and> generate builder0 prefixed_template
       = generate_blocks builder0
           (dropWhile (\<lambda>l. level l \<noteq> 0) (extractLinesFrom prefixed_template))
           (mainLines_of (dropWhile (\<lambda>l. level l \<noteq> 0) (extractLinesFrom prefixed_template)))
   \<and> fst (generate builder0 prefixed_template) = Inr ()
   \<and> childNodes (parent (snd (generate builder0 prefixed_template)))
       = [ElementNode (prepend (fresh_element ''a'') (ElementNode (fresh_element ''b'')))]
   \<and> list_all (\<lambda>l. level l \<noteq> 0) (extractLinesFrom rootless_template)
   \<and> generate builder0 rootless_template = (Inr (), builder0)"
proof -
  have h1: "trim prefixed_template \<noteq> []" and h2: "trim unprefixed_template \<noteq> []"
    by code_simp+
  have h3: "dropWhile (\<lambda>l. level l \<noteq> 0) (extractLinesFrom prefixed_template)
       = dropWhile (\<lambda>l. level l \<noteq> 0) (extractLinesFrom unprefixed_template)"
    by code_simp
  have h4: "list_all (\<lambda>l. level l \<noteq> 0) (extractLinesFrom rootless_template)"
    by code_simp
  then have h4': "\<forall>l \<in> set (extractLinesFrom rootless_template). level l \<noteq> 0"
    by (simp add: list_all_iff)
  have e1: "fst (generate builder0 prefixed_template) = Inr ()" by code_simp
  have e2: "childNodes (parent (snd (generate builder0 prefixed_template)))
       = [ElementNode (prepend (fresh_element ''a'') (ElementNode (fresh_element ''b'')))]"
    by code_simp
  from lines_before_first_main_line_skipped [of prefixed_template builder0 unprefixed_template]
    h1 h2 h3
  have g1: "generate builder0 prefixed_template = generate builder0 unprefixed_template"
    by blast
  from lines_before_first_main_line_skipped [of rootless_template builder0] h4'
  have g2: "generate builder0 rootless_template = (Inr (), builder0)"
    by blast
  from lines_before_first_main_line_skipped [of prefixed_template builder0] h1
  have g3: "generate builder0 prefixed_template
       = generate_blocks builder0
           (dropWhile (\<lambda>l. level l \<noteq> 0) (extractLinesFrom prefixed_template))
           (mainLines_of (dropWhile (\<lambda>l. level l \<noteq> 0) (extractLinesFrom prefixed_template)))"
    by blast
  from h1 h2 h3 h4 e1 e2 g1 g2 g3 show ?thesis by simp
qed

end
